theory Spec2Isabelle
  imports Main "HOL-Library.Word"
begin

unbundle bit_operations_syntax

section \<open>The Micheline binary encoder of taquito-michel-codec (binary.ts)\<close>

subsection \<open>JavaScript strings and values\<close>

text \<open>
  A JavaScript string is a sequence of UTF-16 code units; \<open>length\<close> and \<open>slice\<close> count
  code units. \<open>str\<close> writes an ASCII literal as such a sequence.
\<close>

type_synonym code_unit = "16 word"
type_synonym js_string = "code_unit list"

definition str :: "string \<Rightarrow> js_string" where
  "str s = map of_char s"

text \<open>
  The values that reach the encoder's arithmetic and its writer: \<open>undefined\<close>, integral
  numbers (every number the encoder computes is an integer far below \<open>2 ^ 53\<close>, hence exact),
  \<open>NaN\<close>, booleans, and \<open>Builtin\<close>: a function or object that a property lookup finds on
  \<open>Object.prototype\<close>.
\<close>

datatype js_value = Undefined | Number int | NaN | Boolean bool | Builtin

fun truthy :: "js_value \<Rightarrow> bool" where
  "truthy Undefined = False"
| "truthy (Number n) = (n \<noteq> 0)"
| "truthy NaN = False"
| "truthy (Boolean b) = b"
| "truthy Builtin = True"

text \<open>\<open>a || b\<close>\<close>

definition js_or :: "js_value \<Rightarrow> js_value \<Rightarrow> js_value" where
  "js_or a b = (if truthy a then a else b)"

text \<open>
  \<open>ToNumber\<close>: the members of \<open>Object.prototype\<close> convert through their \<open>toString\<close> to a
  text that is no numeric literal, hence to \<open>NaN\<close>.
\<close>

fun ToNumber :: "js_value \<Rightarrow> js_value" where
  "ToNumber Undefined = NaN"
| "ToNumber (Number n) = Number n"
| "ToNumber NaN = NaN"
| "ToNumber (Boolean b) = Number (if b then 1 else 0)"
| "ToNumber Builtin = NaN"

definition js_add :: "js_value \<Rightarrow> js_value \<Rightarrow> js_value" where
  "js_add a b = (case (ToNumber a, ToNumber b) of
                   (Number x, Number y) \<Rightarrow> Number (x + y)
                 | _ \<Rightarrow> NaN)"

definition js_mul :: "js_value \<Rightarrow> js_value \<Rightarrow> js_value" where
  "js_mul a b = (case (ToNumber a, ToNumber b) of
                   (Number x, Number y) \<Rightarrow> Number (x * y)
                 | _ \<Rightarrow> NaN)"

text \<open>\<open>val | 0\<close>, that is \<open>ToInt32\<close>: \<open>NaN\<close> becomes 0, a number wraps to 32 bits, signed.\<close>

definition ToInt32 :: "js_value \<Rightarrow> int" where
  "ToInt32 v = (case ToNumber v of Number n \<Rightarrow> signed_take_bit 31 n | _ \<Rightarrow> 0)"

subsection \<open>Platform functions the encoder calls\<close>

text \<open>The white space that \<open>parseInt\<close> and \<open>BigInt\<close> strip (ECMAScript \<open>StrWhiteSpaceChar\<close>).\<close>

definition is_white_space :: "code_unit \<Rightarrow> bool" where
  "is_white_space c =
     (let u = unat c in
      u \<in> {0x09, 0x0A, 0x0B, 0x0C, 0x0D, 0x20, 0xA0, 0x1680, 0x2028, 0x2029, 0x202F, 0x205F,
            0x3000, 0xFEFF} \<or> (0x2000 \<le> u \<and> u \<le> 0x200A))"

text \<open>The value of a digit in the given radix, \<open>None\<close> when the code unit is no such digit.\<close>

definition digit_of :: "nat \<Rightarrow> code_unit \<Rightarrow> nat option" where
  "digit_of radix c =
     (let u = unat c;
          d = (if 48 \<le> u \<and> u \<le> 57 then u - 48
               else if 97 \<le> u \<and> u \<le> 122 then u - 87
               else if 65 \<le> u \<and> u \<le> 90 then u - 55
               else 36)
      in if d < radix then Some d else None)"

definition digits_value :: "nat \<Rightarrow> js_string \<Rightarrow> nat" where
  "digits_value radix ds = foldl (\<lambda>a c. a * radix + the (digit_of radix c)) 0 ds"

definition is_prefix_0 :: "string \<Rightarrow> js_string \<Rightarrow> bool" where
  "is_prefix_0 letters s =
     (case s of a # b # _ \<Rightarrow> a = of_char CHR ''0'' \<and> b \<in> of_char ` set letters | _ \<Rightarrow> False)"

text \<open>
  \<open>parseInt(string, radix)\<close>: leading white space is skipped, a sign is read, with radix 16
  (or 0) a prefix \<open>0x\<close> is dropped, and the longest run of digits is the value; no digit at
  all gives \<open>NaN\<close>. (The value is exact here; JavaScript rounds it to a double, which
  changes nothing for the two-digit texts the encoder passes.)
\<close>

definition parseInt :: "js_string \<Rightarrow> nat \<Rightarrow> js_value" where
  "parseInt string radix =
     (let s = dropWhile is_white_space string;
          negative = (s \<noteq> [] \<and> hd s = of_char CHR ''-'');
          s = (if s \<noteq> [] \<and> (hd s = of_char CHR ''+'' \<or> hd s = of_char CHR ''-'') then tl s else s);
          stripPrefix = (radix = 0 \<or> radix = 16);
          r = (if radix = 0 then 10 else radix)
      in if r < 2 \<or> 36 < r then NaN
         else
           let strip = (stripPrefix \<and> is_prefix_0 ''xX'' s);
               s = (if strip then drop 2 s else s);
               r = (if strip then 16 else r);
               z = takeWhile (\<lambda>c. digit_of r c \<noteq> None) s
           in if z = [] then NaN
              else Number ((if negative then - 1 else 1) * int (digits_value r z)))"

text \<open>
  \<open>BigInt(string)\<close>, that is \<open>StringToBigInt\<close>: white space is trimmed at both ends; the
  empty text is 0; otherwise the text is a decimal integer with an optional sign, or an
  unsigned binary, octal or hexadecimal literal with its prefix. Anything else is a
  \<open>SyntaxError\<close>, here \<open>None\<close>.
\<close>

definition all_digits :: "nat \<Rightarrow> js_string \<Rightarrow> bool" where
  "all_digits radix s = (s \<noteq> [] \<and> list_all (\<lambda>c. digit_of radix c \<noteq> None) s)"

definition BigInt :: "js_string \<Rightarrow> int option" where
  "BigInt string =
     (let s = rev (dropWhile is_white_space (rev (dropWhile is_white_space string)))
      in if s = [] then Some 0
         else if is_prefix_0 ''xX'' s then
           (if all_digits 16 (drop 2 s) then Some (int (digits_value 16 (drop 2 s))) else None)
         else if is_prefix_0 ''oO'' s then
           (if all_digits 8 (drop 2 s) then Some (int (digits_value 8 (drop 2 s))) else None)
         else if is_prefix_0 ''bB'' s then
           (if all_digits 2 (drop 2 s) then Some (int (digits_value 2 (drop 2 s))) else None)
         else if hd s = of_char CHR ''-'' then
           (if all_digits 10 (tl s) then Some (- int (digits_value 10 (tl s))) else None)
         else if hd s = of_char CHR ''+'' then
           (if all_digits 10 (tl s) then Some (int (digits_value 10 (tl s))) else None)
         else if all_digits 10 s then Some (int (digits_value 10 s))
         else None)"

text \<open>
  \<open>new TextEncoder().encode(s)\<close>: UTF-8, where a surrogate pair is one code point of four
  bytes and a lone surrogate is replaced by U+FFFD (bytes EF BF BD).
\<close>

definition is_high_surrogate :: "code_unit \<Rightarrow> bool" where
  "is_high_surrogate c = (0xD800 \<le> unat c \<and> unat c < 0xDC00)"

definition is_low_surrogate :: "code_unit \<Rightarrow> bool" where
  "is_low_surrogate c = (0xDC00 \<le> unat c \<and> unat c < 0xE000)"

definition utf8_of_code_point :: "nat \<Rightarrow> int list" where
  "utf8_of_code_point u =
     (if u < 0x80 then [int u]
      else if u < 0x800 then [int (0xC0 + u div 0x40), int (0x80 + u mod 0x40)]
      else if u < 0x10000 then
        [int (0xE0 + u div 0x1000), int (0x80 + u div 0x40 mod 0x40), int (0x80 + u mod 0x40)]
      else
        [int (0xF0 + u div 0x40000), int (0x80 + u div 0x1000 mod 0x40),
         int (0x80 + u div 0x40 mod 0x40), int (0x80 + u mod 0x40)])"

fun TextEncoder_encode :: "js_string \<Rightarrow> int list" where
  "TextEncoder_encode [] = []"
| "TextEncoder_encode [c] =
     (if is_high_surrogate c \<or> is_low_surrogate c then utf8_of_code_point 0xFFFD
      else utf8_of_code_point (unat c))"
| "TextEncoder_encode (c # d # cs) =
     (if is_high_surrogate c \<and> is_low_surrogate d then
        utf8_of_code_point (0x10000 + (unat c - 0xD800) * 0x400 + (unat d - 0xDC00))
          @ TextEncoder_encode cs
      else if is_high_surrogate c \<or> is_low_surrogate c then
        utf8_of_code_point 0xFFFD @ TextEncoder_encode (d # cs)
      else utf8_of_code_point (unat c) @ TextEncoder_encode (d # cs))"

text \<open>\<open>Array.prototype.join\<close> on an array of strings.\<close>

fun join :: "js_string \<Rightarrow> js_string list \<Rightarrow> js_string" where
  "join sep [] = []"
| "join sep [x] = x"
| "join sep (x # y # ys) = x @ sep @ join sep (y # ys)"

text \<open>\<open>s.slice(a, b)\<close> for \<open>0 \<le> a \<le> b\<close>; the end is clamped to the length.\<close>

definition js_slice :: "js_string \<Rightarrow> nat \<Rightarrow> nat \<Rightarrow> js_string" where
  "js_slice s a b = take (b - a) (drop a s)"

subsection \<open>The primitive table\<close>

definition primitives :: "js_string list" where
  "primitives = map str
  [
    ''parameter'', ''storage'', ''code'', ''False'', ''Elt'', ''Left'', ''None'', ''Pair'',
    ''Right'', ''Some'', ''True'', ''Unit'', ''PACK'', ''UNPACK'', ''BLAKE2B'', ''SHA256'',
    ''SHA512'', ''ABS'', ''ADD'', ''AMOUNT'', ''AND'', ''BALANCE'', ''CAR'', ''CDR'',
    ''CHECK_SIGNATURE'', ''COMPARE'', ''CONCAT'', ''CONS'', ''CREATE_ACCOUNT'',
    ''CREATE_CONTRACT'', ''IMPLICIT_ACCOUNT'', ''DIP'', ''DROP'', ''DUP'', ''EDIV'',
    ''EMPTY_MAP'', ''EMPTY_SET'', ''EQ'', ''EXEC'', ''FAILWITH'', ''GE'', ''GET'', ''GT'',
    ''HASH_KEY'', ''IF'', ''IF_CONS'', ''IF_LEFT'', ''IF_NONE'', ''INT'', ''LAMBDA'',
    ''LE'', ''LEFT'', ''LOOP'', ''LSL'', ''LSR'', ''LT'', ''MAP'', ''MEM'', ''MUL'',
    ''NEG'', ''NEQ'', ''NIL'', ''NONE'', ''NOT'', ''NOW'', ''OR'', ''PAIR'', ''PUSH'',
    ''RIGHT'', ''SIZE'', ''SOME'', ''SOURCE'', ''SENDER'', ''SELF'', ''STEPS_TO_QUOTA'',
    ''SUB'', ''SWAP'', ''TRANSFER_TOKENS'', ''SET_DELEGATE'', ''UNIT'', ''UPDATE'', ''XOR'',
    ''ITER'', ''LOOP_LEFT'', ''ADDRESS'', ''CONTRACT'', ''ISNAT'', ''CAST'', ''RENAME'',
    ''bool'', ''contract'', ''int'', ''key'', ''key_hash'', ''lambda'', ''list'', ''map'',
    ''big_map'', ''nat'', ''option'', ''or'', ''pair'', ''set'', ''signature'', ''string'',
    ''bytes'', ''mutez'', ''timestamp'', ''unit'', ''operation'', ''address'', ''SLICE'',
    ''DIG'', ''DUG'', ''EMPTY_BIG_MAP'', ''APPLY'', ''chain_id'', ''CHAIN_ID'', ''LEVEL'',
    ''SELF_ADDRESS'', ''never'', ''NEVER'', ''UNPAIR'', ''VOTING_POWER'',
    ''TOTAL_VOTING_POWER'', ''KECCAK'', ''SHA3'', ''PAIRING_CHECK'', ''bls12_381_g1'',
    ''bls12_381_g2'', ''bls12_381_fr'', ''sapling_state'', ''sapling_transaction'',
    ''SAPLING_EMPTY_STATE'', ''SAPLING_VERIFY_UPDATE'', ''ticket'', ''TICKET'',
    ''READ_TICKET'', ''SPLIT_TICKET'', ''JOIN_TICKETS'', ''GET_AND_UPDATE''
  ]"

text \<open>
  \<open>Object.assign({}, ...primitives.map((v, i) => ({ [v]: i })))\<close>: the own properties of
  \<open>primTags\<close>; a later entry of the same name would overwrite an earlier one.
\<close>

definition primTags_own :: "js_string \<rightharpoonup> nat" where
  "primTags_own =
     fold (\<lambda>(v, i) m. m(v \<mapsto> i)) (zip primitives [0 ..< length primitives]) Map.empty"

text \<open>
  \<open>primTags\<close> is created from the literal \<open>{}\<close>, so its prototype is \<open>Object.prototype\<close>, and
  the lookup \<open>primTags[key]\<close> falls back to the properties found there.
\<close>

definition Object_prototype_keys :: "js_string list" where
  "Object_prototype_keys = map str
     [''constructor'', ''hasOwnProperty'', ''isPrototypeOf'', ''propertyIsEnumerable'',
      ''toLocaleString'', ''toString'', ''valueOf'', ''__proto__'', ''__defineGetter__'',
      ''__defineSetter__'', ''__lookupGetter__'', ''__lookupSetter__'']"

definition primTags :: "js_string \<Rightarrow> js_value" where
  "primTags key =
     (case primTags_own key of
        Some i \<Rightarrow> Number (int i)
      | None \<Rightarrow> if key \<in> set Object_prototype_keys then Builtin else Undefined)"

datatype Tag =
    Tag_Int | Tag_String | Tag_Sequence | Tag_Prim0 | Tag_Prim0Annot | Tag_Prim1
  | Tag_Prim1Annot | Tag_Prim2 | Tag_Prim2Annot | Tag_Prim | Tag_Bytes

fun tag_num :: "Tag \<Rightarrow> int" where
  "tag_num Tag_Int = 0"
| "tag_num Tag_String = 1"
| "tag_num Tag_Sequence = 2"
| "tag_num Tag_Prim0 = 3"
| "tag_num Tag_Prim0Annot = 4"
| "tag_num Tag_Prim1 = 5"
| "tag_num Tag_Prim1Annot = 6"
| "tag_num Tag_Prim2 = 7"
| "tag_num Tag_Prim2Annot = 8"
| "tag_num Tag_Prim = 9"
| "tag_num Tag_Bytes = 10"

subsection \<open>The writer\<close>

text \<open>
  The buffer is an array of numbers; every element is the result of \<open>& 0xff\<close>, an integer.
  A JavaScript array holds fewer than \<open>2 ^ 32\<close> elements, while the lists here are not
  bounded: a statement that needs a length below \<open>2 ^ 32\<close> says so.
\<close>

record Writer =
  buffer :: "int list"

definition new_Writer :: Writer where
  "new_Writer = \<lparr>buffer = []\<rparr>"

definition length_of :: "Writer \<Rightarrow> nat" where
  "length_of wr = length (buffer wr)"

definition push :: "int list \<Rightarrow> Writer \<Rightarrow> Writer" where
  "push vs wr = wr\<lparr>buffer := buffer wr @ vs\<rparr>"

definition writeBytes :: "js_value list \<Rightarrow> Writer \<Rightarrow> Writer" where
  "writeBytes val wr = push (map (\<lambda>v. ToInt32 v AND 0xff) val) wr"

definition writeUint8 :: "js_value \<Rightarrow> Writer \<Rightarrow> Writer" where
  "writeUint8 val wr = (let v = ToInt32 val in push [v AND 0xff] wr)"

definition writeUint16 :: "js_value \<Rightarrow> Writer \<Rightarrow> Writer" where
  "writeUint16 val wr =
     (let v = ToInt32 val in push [v AND 0xff] (push [drop_bit 8 v AND 0xff] wr))"

definition writeUint32 :: "js_value \<Rightarrow> Writer \<Rightarrow> Writer" where
  "writeUint32 val wr =
     (let v = ToInt32 val
      in push [v AND 0xff]
           (push [drop_bit 8 v AND 0xff]
              (push [drop_bit 16 v AND 0xff]
                 (push [drop_bit 24 v AND 0xff] wr))))"

definition writeInt8 :: "js_value \<Rightarrow> Writer \<Rightarrow> Writer" where
  "writeInt8 val wr = writeUint8 val wr"

definition writeInt16 :: "js_value \<Rightarrow> Writer \<Rightarrow> Writer" where
  "writeInt16 val wr = writeUint16 val wr"

definition writeInt32 :: "js_value \<Rightarrow> Writer \<Rightarrow> Writer" where
  "writeInt32 val wr = writeUint32 val wr"

subsection \<open>The encoder\<close>

datatype expr =
    Seq "expr list"
  | StringLiteral js_string
  | IntLiteral js_string
  | BytesLiteral js_string
  | Prim js_string "expr list option" "js_string list option"

datatype error = TypeError js_string | SyntaxError

text \<open>
  The \<open>do ... while (val)\<close> loop of the integer branch. When it starts, \<open>val\<close> holds the
  magnitude, a BigInt that is not negative: a natural number.
\<close>

function int_loop :: "nat \<Rightarrow> nat \<Rightarrow> bool \<Rightarrow> Writer \<Rightarrow> Writer" where
  "int_loop i val sign wr =
     (let bits = (if i = 0 then 6 else 7);
          byte = val AND (push_bit bits 1 - 1);
          val = drop_bit bits val;
          byte = (if val \<noteq> 0 then byte OR 0x80 else byte);
          byte = (if i = 0 \<and> sign then byte OR 0x40 else byte);
          wr = writeUint8 (Number (int byte)) wr
      in if val \<noteq> 0 then int_loop (i + 1) val sign wr else wr)"
  by pat_completeness auto
termination
proof (relation "measure (\<lambda>(i, val, sign, wr). val)")
  show "wf (measure (\<lambda>(i, val, sign, wr). val))"
    by simp
next
  fix i val :: nat and sign :: bool and wr :: Writer and bits b v :: nat
  assume "bits = (if i = 0 then 6 else 7)" and "v = drop_bit bits val" and "v \<noteq> 0"
  then have "drop_bit bits val < val"
    by (auto simp: drop_bit_eq_div intro!: div_less_dividend)
  then show "((i + 1, v, sign, wr'), (i, val, sign, wr)) \<in> measure (\<lambda>(i, val, sign, wr). val)"
    for wr'
    using \<open>v = drop_bit bits val\<close> by simp
qed

text \<open>The \<open>for (let i = 0; i < expr.bytes.length; i += 2)\<close> loop of the bytes branch.\<close>

function bytes_loop :: "js_string \<Rightarrow> nat \<Rightarrow> js_value list \<Rightarrow> js_value list" where
  "bytes_loop s i bytes =
     (if i < length s then bytes_loop s (i + 2) (bytes @ [parseInt (js_slice s i (i + 2)) 16])
      else bytes)"
  by pat_completeness auto
termination
  by (relation "measure (\<lambda>(s, i, bytes). length s - i)") auto

text \<open>\<open>expr.args?.length\<close>\<close>

definition args_length :: "expr list option \<Rightarrow> js_value" where
  "args_length args = (case args of None \<Rightarrow> Undefined | Some as \<Rightarrow> Number (int (length as)))"

text \<open>
  The constant \<open>tag\<close>. In \<open>expr.args?.length || 0 < 3 ? ... : Tag.Prim\<close> the comparison binds
  tighter than \<open>||\<close>, which binds tighter than the conditional: the condition is
  \<open>expr.args?.length || (0 < 3)\<close>.
\<close>

definition prim_tag :: "expr list option \<Rightarrow> js_string list option \<Rightarrow> js_value" where
  "prim_tag args annots =
     (if truthy (js_or (args_length args) (Boolean ((0 :: int) < 3))) then
        js_add
          (js_add (Number (tag_num Tag_Prim0)) (js_mul (js_or (args_length args) (Number 0)) (Number 2)))
          (Number (if annots = None \<or> length (the annots) = 0 then 0 else 1))
      else Number (tag_num Tag_Prim))"

fun encodeBinary :: "expr \<Rightarrow> Writer \<Rightarrow> error + Writer"
  and encodeEach :: "expr list \<Rightarrow> Writer \<Rightarrow> error + Writer" where
  "encodeBinary (Seq xs) wr =
     (case encodeEach xs new_Writer of
        Inl e \<Rightarrow> Inl e
      | Inr w \<Rightarrow>
          Inr (writeBytes (map Number (buffer w))
                 (writeUint32 (Number (int (length_of w)))
                    (writeUint8 (Number (tag_num Tag_Sequence)) wr))))"
| "encodeBinary (StringLiteral s) wr =
     (let bytes = TextEncoder_encode s
      in Inr (writeBytes (map Number bytes)
                (writeUint32 (Number (int (length bytes)))
                   (writeUint8 (Number (tag_num Tag_String)) wr))))"
| "encodeBinary (IntLiteral s) wr =
     (let wr = writeUint8 (Number (tag_num Tag_Int)) wr
      in case BigInt s of
           None \<Rightarrow> Inl SyntaxError
         | Some val \<Rightarrow>
             (let sign = (val < 0);
                  val = (if sign then - val else val)
              in Inr (int_loop 0 (nat val) sign wr)))"
| "encodeBinary (BytesLiteral s) wr =
     (let bytes = bytes_loop s 0 []
      in Inr (writeBytes bytes
                (writeUint32 (Number (int (length bytes)))
                   (writeUint8 (Number (tag_num Tag_Bytes)) wr))))"
| "encodeBinary (Prim name args annots) wr =
     (let prim = primTags name
      in if prim = Undefined then Inl (TypeError name)
         else
           (let tag = prim_tag args annots;
                wr = writeUint8 prim (writeUint8 tag wr)
            in case (case args of
                       None \<Rightarrow> Inr wr
                     | Some as \<Rightarrow>
                         if length as < 3 then encodeEach as wr else encodeBinary (Seq as) wr) of
                 Inl e \<Rightarrow> Inl e
               | Inr wr \<Rightarrow>
                   (case annots of
                      None \<Rightarrow> Inr wr
                    | Some an \<Rightarrow>
                        if length an \<noteq> 0 then
                          (let bytes = TextEncoder_encode (join (str '' '') an)
                           in Inr (writeBytes (map Number bytes)
                                     (writeUint32 (Number (int (length bytes))) wr)))
                        else Inr wr)))"
| "encodeEach [] wr = Inr wr"
| "encodeEach (v # vs) wr =
     (case encodeBinary v wr of Inl e \<Rightarrow> Inl e | Inr wr' \<Rightarrow> encodeEach vs wr')"

definition emitBinary :: "expr \<Rightarrow> error + int list" where
  "emitBinary expr =
     (case encodeBinary expr new_Writer of Inl e \<Rightarrow> Inl e | Inr w \<Rightarrow> Inr (buffer w))"

declare int_loop.simps [simp del] bytes_loop.simps [simp del]

subsection \<open>The wire format in the specification's words\<close>

text \<open>A byte: an integer from 0 to 255.\<close>

definition is_byte :: "int \<Rightarrow> bool" where
  "is_byte b = (0 \<le> b \<and> b \<le> 255)"

text \<open>The four bytes of a number, most significant first, and the number four bytes stand for.\<close>

definition uint32_be :: "nat \<Rightarrow> int list" where
  "uint32_be n =
     [int (n div 2 ^ 24 mod 256), int (n div 2 ^ 16 mod 256), int (n div 2 ^ 8 mod 256),
      int (n mod 256)]"

definition be_value :: "int list \<Rightarrow> int" where
  "be_value bs = foldl (\<lambda>a b. a * 256 + b) 0 bs"

text \<open>
  The sign-magnitude varint. First byte: the low 6 bits of the magnitude, bit 6 the sign,
  bit 7 set if the magnitude shifted right by 6 is not zero. Then, while the remaining
  magnitude is not zero, a byte of its low 7 bits, bit 7 set if more remains after them.
\<close>

definition first_byte :: "int \<Rightarrow> int" where
  "first_byte n =
     \<bar>n\<bar> mod 64 + (if n < 0 then 64 else 0) + (if \<bar>n\<bar> div 64 \<noteq> 0 then 128 else 0)"

function next_bytes :: "nat \<Rightarrow> int list" where
  "next_bytes m =
     (if m = 0 then []
      else (int (m mod 128) + (if m div 128 \<noteq> 0 then 128 else 0)) # next_bytes (m div 128))"
  by pat_completeness auto
termination
  by (relation "measure id") auto

declare next_bytes.simps [simp del]

definition varint :: "int \<Rightarrow> int list" where
  "varint n = first_byte n # next_bytes (nat (\<bar>n\<bar> div 64))"

text \<open>The value of a hexadecimal digit.\<close>

definition hex_value :: "code_unit \<Rightarrow> nat" where
  "hex_value c = the (digit_of 16 c)"

definition is_hex_digit :: "code_unit \<Rightarrow> bool" where
  "is_hex_digit c = (digit_of 16 c \<noteq> None)"

subsection \<open>Views of the encoder used in the statements\<close>

text \<open>The bytes that a run of \<open>encodeBinary\<close> over a list of nodes appends to a fresh writer.\<close>

definition emitEach :: "expr list \<Rightarrow> error + int list" where
  "emitEach xs = (case encodeEach xs new_Writer of Inl e \<Rightarrow> Inl e | Inr w \<Rightarrow> Inr (buffer w))"

text \<open>The parts of the application branch, named for the statements below.\<close>

definition prim_header :: "js_string \<Rightarrow> expr list option \<Rightarrow> js_string list option \<Rightarrow> int list" where
  "prim_header name args annots =
     [ToInt32 (prim_tag args annots) AND 0xff, ToInt32 (primTags name) AND 0xff]"

definition encode_args :: "expr list option \<Rightarrow> Writer \<Rightarrow> error + Writer" where
  "encode_args args wr =
     (case args of
        None \<Rightarrow> Inr wr
      | Some as \<Rightarrow> if length as < 3 then encodeEach as wr else encodeBinary (Seq as) wr)"

definition annots_block :: "js_string list option \<Rightarrow> int list" where
  "annots_block annots =
     (case annots of
        None \<Rightarrow> []
      | Some an \<Rightarrow>
          if length an \<noteq> 0 then
            uint32_be (length (TextEncoder_encode (join (str '' '') an)))
              @ map (\<lambda>b. b mod 256) (TextEncoder_encode (join (str '' '') an))
          else [])"

text \<open>The bytes that the argument part of an application appends to a fresh writer.\<close>

definition emit_args :: "expr list option \<Rightarrow> error + int list" where
  "emit_args args =
     (case encode_args args new_Writer of Inl e \<Rightarrow> Inl e | Inr w \<Rightarrow> Inr (buffer w))"

text \<open>The value of the pair of hexadecimal digits number \<open>k\<close> of a text.\<close>

definition hex_pair :: "js_string \<Rightarrow> nat \<Rightarrow> int" where
  "hex_pair s k = int (16 * hex_value (s ! (2 * k)) + hex_value (s ! (2 * k + 1)))"

text \<open>
  The tag of the compact forms as the specification gives it: 3, plus twice the number of
  arguments, plus 1 if there are annotations.
\<close>

definition arg_count :: "expr list option \<Rightarrow> nat" where
  "arg_count args = (case args of None \<Rightarrow> 0 | Some as \<Rightarrow> length as)"

definition has_annots :: "js_string list option \<Rightarrow> bool" where
  "has_annots annots = (case annots of None \<Rightarrow> False | Some an \<Rightarrow> an \<noteq> [])"

definition compact_tag :: "nat \<Rightarrow> bool \<Rightarrow> int" where
  "compact_tag argc annotated = 3 + 2 * int argc + (if annotated then 1 else 0)"

text \<open>The names of the application nodes of a tree.\<close>

fun prim_names :: "expr \<Rightarrow> js_string list" where
  "prim_names (Seq xs) = concat (map prim_names xs)"
| "prim_names (StringLiteral s) = []"
| "prim_names (IntLiteral s) = []"
| "prim_names (BytesLiteral s) = []"
| "prim_names (Prim name args annots) =
     name # (case args of None \<Rightarrow> [] | Some as \<Rightarrow> concat (map prim_names as))"

section \<open>Properties\<close>

subsection \<open>Bit operations as arithmetic\<close>

lemma and_255_eq_mod: "(k :: int) AND 0xff = k mod 256"
proof -
  have "(0xff :: int) = mask 8"
    by (simp add: mask_eq_exp_minus_1)
  then show ?thesis
    by (simp only: flip: take_bit_eq_mask) (simp add: take_bit_eq_mod)
qed

lemma bits_of_int32:
  assumes "m + 8 \<le> 32"
  shows "take_bit 8 (drop_bit m (signed_take_bit 31 (n :: int))) = take_bit 8 (drop_bit m n)"
proof (rule bit_eqI)
  fix k
  show "bit (take_bit 8 (drop_bit m (signed_take_bit 31 n))) k
    \<longleftrightarrow> bit (take_bit 8 (drop_bit m n)) k"
  proof (cases "k < 8")
    case True
    with assms have "min 31 (m + k) = m + k"
      by simp
    with True show ?thesis
      by (simp add: bit_take_bit_iff bit_drop_bit_eq bit_signed_take_bit_iff)
  next
    case False
    then show ?thesis
      by (simp add: bit_take_bit_iff)
  qed
qed

lemma ToInt32_shift_and_255:
  assumes "m + 8 \<le> 32"
  shows "drop_bit m (ToInt32 (Number n)) AND 0xff = n div 2 ^ m mod 256"
  using bits_of_int32 [OF assms, of n]
  by (simp add: ToInt32_def and_255_eq_mod take_bit_eq_mod drop_bit_eq_div)

lemma ToInt32_and_255: "ToInt32 (Number n) AND 0xff = n mod 256"
  using ToInt32_shift_and_255 [of 0 n] by simp

lemma is_byte_and_255: "is_byte (k AND 0xff)"
  by (simp add: is_byte_def and_255_eq_mod)

lemma and_low_bits: "(v :: nat) AND (push_bit k 1 - 1) = v mod 2 ^ k"
proof -
  have "push_bit k 1 - 1 = (mask k :: nat)"
    by (simp add: mask_eq_exp_minus_1)
  then show ?thesis
    by (simp add: take_bit_eq_mod flip: take_bit_eq_mask)
qed

lemma or_push_bit_add:
  fixes b :: nat
  assumes "b < 2 ^ k"
  shows "b OR push_bit k m = b + push_bit k m"
proof -
  from assms have b: "take_bit k b = b"
    by (simp add: take_bit_eq_mod)
  have "take_bit k b AND push_bit k m = 0"
    by (rule bit_eqI) (auto simp: bit_and_iff bit_take_bit_iff bit_push_bit_iff)
  with b have "b AND push_bit k m = 0"
    by simp
  then show ?thesis
    by (simp add: disjunctive_add_eq_or)
qed

lemma or_0x80: "b < 128 \<Longrightarrow> (b :: nat) OR 0x80 = b + 128"
  using or_push_bit_add [of b 7 1] by simp

lemma or_0x40: "b < 64 \<Longrightarrow> (b :: nat) OR 0x40 = b + 64"
  using or_push_bit_add [of b 6 1] by simp

lemma or_0x80_0x40:
  assumes "b < 64"
  shows "((b :: nat) OR 0x80) OR 0x40 = b + 192"
proof -
  have "(b OR 0x80) OR 0x40 = b OR (0x80 OR 0x40)"
    by (simp add: or.assoc)
  also have "(0x80 :: nat) OR 0x40 = push_bit 6 3"
    by simp
  also have "b OR push_bit 6 3 = b + 192"
    using or_push_bit_add [of b 6 3] assms by simp
  finally show ?thesis .
qed

lemma be4:
  fixes n :: nat
  assumes "n < 2 ^ 32"
  shows "((n div 2 ^ 24 mod 256 * 256 + n div 2 ^ 16 mod 256) * 256 + n div 2 ^ 8 mod 256) * 256
          + n mod 256 = n"
proof -
  define a where "a = n div 256"
  define b where "b = a div 256"
  define c where "c = b div 256"
  define rn where "rn = n mod 256"
  define ra where "ra = a mod 256"
  define rb where "rb = b mod 256"
  have n: "n = 256 * a + rn"
    by (simp add: a_def rn_def)
  have a: "a = 256 * b + ra"
    by (simp add: b_def ra_def)
  have b: "b = 256 * c + rb"
    by (simp add: c_def rb_def)
  have b': "n div 2 ^ 16 = b"
    using div_mult2_eq [of n 256 256] by (simp add: a_def b_def)
  have c': "n div 2 ^ 24 = c"
    using div_mult2_eq [of n 65536 256] b' by (simp add: c_def)
  have "c < 256"
    using assms c' by (simp add: less_mult_imp_div_less)
  then have c: "c mod 256 = c"
    by simp
  have a': "n div 2 ^ 8 = a"
    by (simp add: a_def)
  show ?thesis
    unfolding a' b' c' c rn_def [symmetric] ra_def [symmetric] rb_def [symmetric]
    using n a b by simp
qed

lemma be_value_uint32_be:
  assumes "n < 2 ^ 32"
  shows "be_value (uint32_be n) = int n"
proof -
  have sum: "be_value (uint32_be n) =
    int (((n div 2 ^ 24 mod 256 * 256 + n div 2 ^ 16 mod 256) * 256 + n div 2 ^ 8 mod 256) * 256
          + n mod 256)"
    by (simp add: be_value_def uint32_be_def)
  show ?thesis
    by (simp only: sum be4 [OF assms])
qed

subsection \<open>The writer appends\<close>

lemma buffer_push: "buffer (push vs wr) = buffer wr @ vs"
  by (simp add: push_def)

lemma push_push: "push ws (push vs wr) = push (vs @ ws) wr"
  by (simp add: push_def)

lemma push_Nil: "push [] wr = wr"
  by (simp add: push_def)

lemma push_new_Writer: "push (buffer w) new_Writer = w"
  by (simp add: push_def new_Writer_def)

lemma writeUint8_Number: "writeUint8 (Number n) wr = push [n mod 256] wr"
  by (simp add: writeUint8_def ToInt32_and_255)

lemma writeUint32_Number: "writeUint32 (Number (int n)) wr = push (uint32_be n) wr"
proof -
  have "drop_bit m (ToInt32 (Number (int n))) AND 0xff = int (n div 2 ^ m mod 256)"
    if "m + 8 \<le> 32" for m
    using ToInt32_shift_and_255 [OF that, of "int n"] by (simp add: zdiv_int zmod_int)
  from this [of 24] this [of 16] this [of 8] this [of 0] show ?thesis
    by (simp add: writeUint32_def Let_def push_push uint32_be_def)
qed

subsection \<open>The integer loop writes the varint\<close>

lemma next_bytes_0: "next_bytes 0 = []"
  by (simp add: next_bytes.simps)

lemma int_loop_next:
  "v \<noteq> 0 \<Longrightarrow> int_loop (Suc i) v sign wr = push (next_bytes v) wr"
proof (induction v arbitrary: i wr rule: less_induct)
  case (less v)
  have low: "v AND 127 = v mod 128"
    using and_low_bits [of v 7] by simp
  show ?case
  proof (cases "v div 128 = 0")
    case True
    have "int_loop (Suc i) v sign wr = push [int (v mod 128)] wr"
      using True by (subst int_loop.simps) (simp add: Let_def low drop_bit_eq_div writeUint8_Number)
    moreover have "next_bytes v = [int (v mod 128)]"
      using True less.prems by (subst next_bytes.simps) (simp add: next_bytes_0)
    ultimately show ?thesis
      by simp
  next
    case False
    from less.prems have "v div 128 < v"
      by simp
    from less.IH [OF this False]
    have IH: "int_loop (Suc (Suc i)) (v div 128) sign w = push (next_bytes (v div 128)) w" for w .
    have "int_loop (Suc i) v sign wr =
      int_loop (Suc (Suc i)) (v div 128) sign (push [int (v mod 128) + 128] wr)"
      using False
      by (subst int_loop.simps) (simp add: Let_def low drop_bit_eq_div writeUint8_Number or_0x80)
    moreover have "next_bytes v = (int (v mod 128) + 128) # next_bytes (v div 128)"
      using False less.prems by (subst next_bytes.simps) simp
    ultimately show ?thesis
      by (simp add: IH push_push)
  qed
qed

lemma add_0x80_or_0x40: "b < 64 \<Longrightarrow> (b + 128 :: nat) OR 0x40 = 192 + b"
  using or_0x80_0x40 [of b] or_0x80 [of b] by simp

lemma int_loop_first:
  "int_loop 0 (nat \<bar>n\<bar>) (n < 0) wr = push (varint n) wr"
proof -
  define m where "m = nat \<bar>n\<bar>"
  have low: "m AND 63 = m mod 64"
    using and_low_bits [of m 6] by simp
  have abs: "\<bar>n\<bar> = int m"
    by (simp add: m_def)
  have md: "int m mod 64 = int (m mod 64)"
    by (simp add: zmod_int)
  have dv: "int m div 64 = int (m div 64)"
    by (simp add: zdiv_int)
  have first: "first_byte n =
    int (m mod 64) + (if n < 0 then 64 else 0) + (if m div 64 \<noteq> 0 then 128 else 0)"
    unfolding first_byte_def abs by (simp add: md dv)
  have rest: "nat (\<bar>n\<bar> div 64) = m div 64"
    unfolding abs by (simp add: dv)
  have step: "int_loop 0 m (n < 0) wr =
    (if m div 64 \<noteq> 0 then int_loop (Suc 0) (m div 64) (n < 0) (push [first_byte n] wr)
     else push [first_byte n] wr)"
    by (subst int_loop.simps)
      (simp add: Let_def low drop_bit_eq_div writeUint8_Number or_0x80 or_0x40 add_0x80_or_0x40 first)
  show ?thesis
    unfolding m_def [symmetric] step varint_def rest
    by (simp add: int_loop_next push_push next_bytes_0)
qed

subsection \<open>Every branch of the encoder appends to its writer\<close>

lemma buffer_new_Writer: "buffer new_Writer = []"
  by (simp add: new_Writer_def)


lemma buffer_push_new: "buffer (push vs new_Writer) = vs"
  by (simp add: push_def new_Writer_def)

lemma writeUint8_push: "writeUint8 v wr = push [ToInt32 v AND 0xff] wr"
  by (simp add: writeUint8_def)

lemma writeBytes_Number: "writeBytes (map Number bs) wr = push (map (\<lambda>b. b mod 256) bs) wr"
  by (simp add: writeBytes_def ToInt32_and_255 comp_def)

lemma encodeBinary_Seq:
  "encodeBinary (Seq xs) wr =
     (case encodeEach xs new_Writer of
        Inl e \<Rightarrow> Inl e
      | Inr w \<Rightarrow>
          Inr (push (2 # uint32_be (length (buffer w)) @ map (\<lambda>b. b mod 256) (buffer w)) wr))"
  by (simp add: writeUint8_Number writeUint32_Number writeBytes_Number length_of_def push_push
      split: sum.split)

lemma encodeBinary_StringLiteral:
  "encodeBinary (StringLiteral s) wr =
     Inr (push (1 # uint32_be (length (TextEncoder_encode s))
                 @ map (\<lambda>b. b mod 256) (TextEncoder_encode s)) wr)"
  by (simp add: writeUint8_Number writeUint32_Number writeBytes_Number push_push Let_def)

lemma encodeBinary_IntLiteral:
  "encodeBinary (IntLiteral s) wr =
     (case BigInt s of None \<Rightarrow> Inl SyntaxError | Some n \<Rightarrow> Inr (push (0 # varint n) wr))"
proof -
  have "(if n < 0 then - n else n) = \<bar>n\<bar>" for n :: int
    by simp
  then show ?thesis
    by (simp add: writeUint8_Number Let_def int_loop_first push_push split: option.split)
qed

lemma encodeBinary_BytesLiteral:
  "encodeBinary (BytesLiteral s) wr =
     Inr (push (10 # uint32_be (length (bytes_loop s 0 []))
                 @ map (\<lambda>v. ToInt32 v AND 0xff) (bytes_loop s 0 [])) wr)"
  by (simp add: writeUint8_Number writeUint32_Number writeBytes_def push_push Let_def)

lemma encodeBinary_Prim:
  "encodeBinary (Prim name args annots) wr =
     (if primTags name = Undefined then Inl (TypeError name)
      else
        case encode_args args (push (prim_header name args annots) wr) of
          Inl e \<Rightarrow> Inl e
        | Inr w \<Rightarrow> Inr (push (annots_block annots) w))"
proof -
  have hdr: "writeUint8 (primTags name) (writeUint8 (prim_tag args annots) w) =
    push (prim_header name args annots) w" for w
    by (simp add: writeUint8_push push_push prim_header_def)
  have args: "(case args of
        None \<Rightarrow> Inr w
      | Some as \<Rightarrow> if length as < 3 then encodeEach as w else encodeBinary (Seq as) w) =
    encode_args args w" for w
    by (simp only: encode_args_def)
  have annots: "(case annots of
        None \<Rightarrow> Inr w
      | Some an \<Rightarrow>
          if length an \<noteq> 0 then
            Inr (writeBytes (map Number (TextEncoder_encode (join (str '' '') an)))
                   (writeUint32 (Number (int (length (TextEncoder_encode (join (str '' '') an))))) w))
          else Inr w) =
    (Inr (push (annots_block annots) w) :: error + Writer)" for w
    by (cases annots)
      (simp_all add: annots_block_def Let_def writeUint32_Number writeBytes_Number push_push push_Nil)
  show ?thesis
    by (simp only: encodeBinary.simps(5) Let_def hdr args annots)
qed

subsection \<open>The bytes appended do not depend on the writer\<close>

lemma encodeEach_append:
  assumes "\<And>x wr. x \<in> set xs \<Longrightarrow>
    encodeBinary x wr = map_sum id (\<lambda>w. push (buffer w) wr) (encodeBinary x new_Writer)"
  shows "encodeEach xs wr = map_sum id (\<lambda>w. push (buffer w) wr) (encodeEach xs new_Writer)"
  using assms
proof (induction xs arbitrary: wr)
  case Nil
  show ?case
    by (simp add: push_def new_Writer_def)
next
  case (Cons x xs)
  have x: "encodeBinary x w = map_sum id (\<lambda>w'. push (buffer w') w) (encodeBinary x new_Writer)"
    for w
    by (rule Cons.prems) simp
  have xs: "encodeEach xs w = map_sum id (\<lambda>w'. push (buffer w') w) (encodeEach xs new_Writer)"
    for w
    by (rule Cons.IH) (rule Cons.prems, simp)
  show ?case
  proof (cases "encodeBinary x new_Writer")
    case (Inl e)
    with x [of wr] show ?thesis
      by simp
  next
    case (Inr w1)
    with x [of wr] have "encodeEach (x # xs) wr = encodeEach xs (push (buffer w1) wr)"
      by simp
    also have "\<dots> = map_sum id (\<lambda>w'. push (buffer w') (push (buffer w1) wr))
        (encodeEach xs new_Writer)"
      by (rule xs)
    finally have left: "encodeEach (x # xs) wr =
      map_sum id (\<lambda>w'. push (buffer w1 @ buffer w') wr) (encodeEach xs new_Writer)"
      by (simp add: push_push)
    from Inr have "encodeEach (x # xs) new_Writer = encodeEach xs w1"
      by simp
    also have "\<dots> = map_sum id (\<lambda>w'. push (buffer w') w1) (encodeEach xs new_Writer)"
      by (rule xs)
    finally have right: "map_sum id (\<lambda>w. push (buffer w) wr) (encodeEach (x # xs) new_Writer) =
      map_sum id (\<lambda>w'. push (buffer w1 @ buffer w') wr) (encodeEach xs new_Writer)"
      by (cases "encodeEach xs new_Writer") (simp_all add: buffer_push)
    show ?thesis
      by (simp only: left right)
  qed
qed

lemma encodeBinary_Seq_append:
  "encodeBinary (Seq xs) wr =
     map_sum id (\<lambda>w. push (buffer w) wr) (encodeBinary (Seq xs) new_Writer)"
  unfolding encodeBinary_Seq [of xs wr] encodeBinary_Seq [of xs new_Writer]
  by (cases "encodeEach xs new_Writer") (simp_all add: buffer_push_new)

lemma encode_args_append:
  assumes "\<And>as x wr. args = Some as \<Longrightarrow> x \<in> set as \<Longrightarrow>
    encodeBinary x wr = map_sum id (\<lambda>w. push (buffer w) wr) (encodeBinary x new_Writer)"
  shows "encode_args args wr = map_sum id (\<lambda>w. push (buffer w) wr) (encode_args args new_Writer)"
proof (cases args)
  case None
  then show ?thesis
    by (simp add: encode_args_def push_def new_Writer_def)
next
  case (Some as)
  show ?thesis
  proof (cases "length as < 3")
    case True
    have "encodeEach as wr = map_sum id (\<lambda>w. push (buffer w) wr) (encodeEach as new_Writer)"
      by (rule encodeEach_append) (rule assms [OF Some])
    with Some True show ?thesis
      by (simp add: encode_args_def)
  next
    case False
    with Some encodeBinary_Seq_append [of as wr] show ?thesis
      by (simp add: encode_args_def del: encodeBinary.simps)
  qed
qed

lemma encodeBinary_Prim_append:
  assumes "\<And>as x wr. args = Some as \<Longrightarrow> x \<in> set as \<Longrightarrow>
    encodeBinary x wr = map_sum id (\<lambda>w. push (buffer w) wr) (encodeBinary x new_Writer)"
  shows "encodeBinary (Prim name args annots) wr =
     map_sum id (\<lambda>w. push (buffer w) wr) (encodeBinary (Prim name args annots) new_Writer)"
proof -
  define hdr where "hdr = prim_header name args annots"
  have args: "encode_args args w = map_sum id (\<lambda>w'. push (buffer w') w) (encode_args args new_Writer)"
    for w
    by (rule encode_args_append) (rule assms)
  show ?thesis
    unfolding encodeBinary_Prim [of name args annots wr]
      encodeBinary_Prim [of name args annots new_Writer] hdr_def [symmetric]
    unfolding args [of "push hdr wr"] args [of "push hdr new_Writer"]
    by (cases "encode_args args new_Writer")
      (simp_all add: push_push buffer_push buffer_push_new buffer_new_Writer)
qed

lemma encodeBinary_append:
  "encodeBinary e wr = map_sum id (\<lambda>w. push (buffer w) wr) (encodeBinary e new_Writer)"
proof (induction e arbitrary: wr)
  case (Seq xs)
  show ?case
    by (rule encodeBinary_Seq_append)
next
  case (StringLiteral s)
  show ?case
    unfolding encodeBinary_StringLiteral by (simp add: buffer_push_new)
next
  case (IntLiteral s)
  show ?case
    unfolding encodeBinary_IntLiteral by (simp add: buffer_push_new split: option.split)
next
  case (BytesLiteral s)
  show ?case
    unfolding encodeBinary_BytesLiteral by (simp add: buffer_push_new)
next
  case (Prim name args annots)
  show ?case
  proof (rule encodeBinary_Prim_append)
    fix as x w
    assume "args = Some as" and "x \<in> set as"
    then show "encodeBinary x w = map_sum id (\<lambda>w'. push (buffer w') w) (encodeBinary x new_Writer)"
      by (intro Prim.IH) simp_all
  qed
qed

subsection \<open>Only bytes are written\<close>

lemma bytes_push: "list_all is_byte (buffer (push vs wr)) \<longleftrightarrow>
    list_all is_byte (buffer wr) \<and> list_all is_byte vs"
  by (simp add: push_def)

lemma is_byte_tags: "is_byte 0" "is_byte 1" "is_byte 2" "is_byte 10"
  by (simp_all add: is_byte_def)

lemma is_byte_mod_256: "is_byte (k mod 256)"
  by (simp add: is_byte_def)

lemma is_byte_nat_mod_256: "is_byte (int (n mod 256))"
proof -
  have "n mod 256 < 256"
    by simp
  then show ?thesis
    unfolding is_byte_def by linarith
qed

lemma bytes_masked: "list_all is_byte (map (\<lambda>v. ToInt32 v AND 0xff) val)"
  by (induction val) (simp_all add: is_byte_and_255)

lemma bytes_writeBytes:
  "list_all is_byte (buffer (writeBytes val wr)) \<longleftrightarrow> list_all is_byte (buffer wr)"
  by (simp add: writeBytes_def bytes_push bytes_masked)

lemma bytes_writeUint8:
  "list_all is_byte (buffer (writeUint8 val wr)) \<longleftrightarrow> list_all is_byte (buffer wr)"
  by (simp add: writeUint8_def bytes_push is_byte_and_255)

lemma bytes_writeUint16:
  "list_all is_byte (buffer (writeUint16 val wr)) \<longleftrightarrow> list_all is_byte (buffer wr)"
  by (simp add: writeUint16_def Let_def bytes_push is_byte_and_255)

lemma bytes_writeUint32:
  "list_all is_byte (buffer (writeUint32 val wr)) \<longleftrightarrow> list_all is_byte (buffer wr)"
  by (simp add: writeUint32_def Let_def bytes_push is_byte_and_255)

lemma bytes_uint32_be: "list_all is_byte (uint32_be n)"
  by (simp add: uint32_be_def is_byte_nat_mod_256)

lemma bytes_mod_256: "list_all is_byte (map (\<lambda>b. b mod 256) bs)"
  by (induction bs) (simp_all add: is_byte_mod_256)

lemma mod_256_bytes: "list_all is_byte bs \<Longrightarrow> map (\<lambda>b. b mod 256) bs = bs"
  by (induction bs) (simp_all add: is_byte_def)

lemma is_byte_first_byte: "is_byte (first_byte n)"
proof -
  define r where "r = \<bar>n\<bar> mod 64"
  have "0 \<le> r" and "r < 64"
    by (simp_all add: r_def)
  moreover have "first_byte n =
    r + (if n < 0 then 64 else 0) + (if \<bar>n\<bar> div 64 \<noteq> 0 then 128 else 0)"
    by (simp only: first_byte_def r_def)
  ultimately show ?thesis
    unfolding is_byte_def by (simp split: if_splits)
qed

lemma bytes_next_bytes: "list_all is_byte (next_bytes m)"
proof (induction m rule: next_bytes.induct)
  case (1 m)
  show ?case
  proof (cases "m = 0")
    case True
    then show ?thesis
      by (simp add: next_bytes.simps)
  next
    case False
    define r where "r = int (m mod 128)"
    have "m mod 128 < 128"
      by simp
    then have "0 \<le> r" and "r < 128"
      by (simp_all add: r_def)
    then have "is_byte (r + (if m div 128 \<noteq> 0 then 128 else 0))"
      unfolding is_byte_def by (simp split: if_splits)
    then have "is_byte (int (m mod 128) + (if m div 128 \<noteq> 0 then 128 else 0))"
      by (simp only: r_def)
    with False 1 show ?thesis
      by (subst next_bytes.simps) simp
  qed
qed

lemma bytes_varint: "list_all is_byte (varint n)"
  by (simp add: varint_def is_byte_first_byte bytes_next_bytes)

lemma bytes_prim_header: "list_all is_byte (prim_header name args annots)"
  by (simp add: prim_header_def is_byte_and_255)

lemma bytes_annots_block: "list_all is_byte (annots_block annots)"
  by (simp add: annots_block_def bytes_uint32_be bytes_mod_256 split: option.split)

lemma encodeEach_bytes:
  assumes "\<And>x wr wr'. x \<in> set xs \<Longrightarrow> encodeBinary x wr = Inr wr' \<Longrightarrow>
    list_all is_byte (buffer wr) \<Longrightarrow> list_all is_byte (buffer wr')"
    and "encodeEach xs wr = Inr wr'" and "list_all is_byte (buffer wr)"
  shows "list_all is_byte (buffer wr')"
  using assms
proof (induction xs arbitrary: wr)
  case Nil
  then show ?case
    by simp
next
  case (Cons x xs)
  from Cons.prems(2) obtain w where x: "encodeBinary x wr = Inr w" and xs: "encodeEach xs w = Inr wr'"
    by (cases "encodeBinary x wr") simp_all
  have "list_all is_byte (buffer w)"
    using x Cons.prems(3) by (rule Cons.prems(1) [rotated]) simp
  with xs show ?case
    by (intro Cons.IH [of w]) (auto intro: Cons.prems(1))
qed

lemma encodeBinary_Seq_bytes:
  assumes "encodeBinary (Seq xs) wr = Inr wr'" and "list_all is_byte (buffer wr)"
  shows "list_all is_byte (buffer wr')"
  using assms unfolding encodeBinary_Seq
  by (auto simp: bytes_push is_byte_tags bytes_uint32_be bytes_mod_256 split: sum.splits)

lemma encodeBinary_bytes:
  "encodeBinary e wr = Inr wr' \<Longrightarrow> list_all is_byte (buffer wr) \<Longrightarrow>
    list_all is_byte (buffer wr')"
proof (induction e arbitrary: wr wr')
  case (Seq xs)
  from Seq.prems show ?case
    by (rule encodeBinary_Seq_bytes)
next
  case (StringLiteral s)
  then show ?case
    unfolding encodeBinary_StringLiteral
    by (auto simp: bytes_push is_byte_tags bytes_uint32_be bytes_mod_256)
next
  case (IntLiteral s)
  then show ?case
    unfolding encodeBinary_IntLiteral
    by (auto simp: bytes_push is_byte_tags bytes_varint split: option.splits)
next
  case (BytesLiteral s)
  let ?bs = "10 # uint32_be (length (bytes_loop s 0 []))
    @ map (\<lambda>v. ToInt32 v AND 0xff) (bytes_loop s 0 [])"
  have "list_all is_byte ?bs"
    by (simp only: list.pred_inject list_all_append is_byte_tags bytes_uint32_be bytes_masked
        simp_thms)
  moreover from BytesLiteral.prems(1) have "wr' = push ?bs wr"
    by (simp only: encodeBinary_BytesLiteral sum.inject)
  ultimately show ?case
    using BytesLiteral.prems(2) by (simp only: bytes_push simp_thms)
next
  case (Prim name args annots)
  from Prim.prems(1) obtain w
    where args: "encode_args args (push (prim_header name args annots) wr) = Inr w"
      and wr': "wr' = push (annots_block annots) w"
    unfolding encodeBinary_Prim by (auto split: if_splits sum.splits)
  have start: "list_all is_byte (buffer (push (prim_header name args annots) wr))"
    using Prim.prems(2) by (simp add: bytes_push bytes_prim_header)
  have "list_all is_byte (buffer w)"
  proof (cases args)
    case None
    with args start show ?thesis
      by (simp add: encode_args_def)
  next
    case (Some as)
    show ?thesis
    proof (cases "length as < 3")
      case True
      with Some args have "encodeEach as (push (prim_header name args annots) wr) = Inr w"
        by (simp add: encode_args_def)
      with start show ?thesis
        by (intro encodeEach_bytes [of as _ w]) (auto intro: Prim.IH simp: Some)
    next
      case False
      with Some args have "encodeBinary (Seq as) (push (prim_header name args annots) wr) = Inr w"
        by (simp add: encode_args_def del: encodeBinary.simps)
      then show ?thesis
        using start by (rule encodeBinary_Seq_bytes)
    qed
  qed
  then show ?case
    by (simp add: wr' bytes_push bytes_annots_block)
qed

subsection \<open>The UTF-8 encoder yields bytes\<close>

lemma is_byte_int: "n \<le> 255 \<Longrightarrow> is_byte (int n)"
  by (simp add: is_byte_def)

lemma is_byte_continuation: "is_byte (int (0x80 + k mod 0x40))"
proof (rule is_byte_int)
  have "k mod 64 < 64"
    by simp
  then show "0x80 + k mod 0x40 \<le> 255"
    by linarith
qed

lemma bytes_utf8_of_code_point:
  assumes "u < 0x110000"
  shows "list_all is_byte (utf8_of_code_point u)"
proof -
  consider "u < 0x80" | "\<not> u < 0x80" "u < 0x800" | "\<not> u < 0x800" "u < 0x10000"
    | "\<not> u < 0x10000"
    by linarith
  then show ?thesis
  proof cases
    case 1
    then have "utf8_of_code_point u = [int u]"
      by (simp add: utf8_of_code_point_def)
    moreover from 1 have "is_byte (int u)"
      by (intro is_byte_int) simp
    ultimately show ?thesis
      by (simp only: list.pred_inject simp_thms)
  next
    case 2
    then have "utf8_of_code_point u = [int (0xC0 + u div 0x40), int (0x80 + u mod 0x40)]"
      by (simp add: utf8_of_code_point_def)
    moreover have "is_byte (int (0xC0 + u div 0x40))"
    proof (rule is_byte_int)
      from 2 have "u div 64 < 32"
        by simp
      then show "0xC0 + u div 0x40 \<le> 255"
        by linarith
    qed
    ultimately show ?thesis
      by (simp only: list.pred_inject simp_thms is_byte_continuation)
  next
    case 3
    then have "utf8_of_code_point u =
      [int (0xE0 + u div 0x1000), int (0x80 + u div 0x40 mod 0x40), int (0x80 + u mod 0x40)]"
      by (simp add: utf8_of_code_point_def)
    moreover have "is_byte (int (0xE0 + u div 0x1000))"
    proof (rule is_byte_int)
      from 3 have "u div 4096 < 16"
        by simp
      then show "0xE0 + u div 0x1000 \<le> 255"
        by linarith
    qed
    ultimately show ?thesis
      by (simp only: list.pred_inject simp_thms is_byte_continuation)
  next
    case 4
    then have "utf8_of_code_point u =
      [int (0xF0 + u div 0x40000), int (0x80 + u div 0x1000 mod 0x40),
       int (0x80 + u div 0x40 mod 0x40), int (0x80 + u mod 0x40)]"
      by (simp add: utf8_of_code_point_def)
    moreover have "is_byte (int (0xF0 + u div 0x40000))"
    proof (rule is_byte_int)
      from assms have "u div 262144 < 5"
        by simp
      then show "0xF0 + u div 0x40000 \<le> 255"
        by linarith
    qed
    ultimately show ?thesis
      by (simp only: list.pred_inject simp_thms is_byte_continuation)
  qed
qed

lemma bytes_TextEncoder_encode: "list_all is_byte (TextEncoder_encode s)"
proof (induction s rule: TextEncoder_encode.induct)
  case 1
  show ?case
    by simp
next
  case (2 c)
  have "unat c < 2 ^ 16"
    using unsigned_less [of c, where ?'a = nat] by simp
  then have "unat c < 0x110000"
    by simp
  then show ?case
    by (simp add: bytes_utf8_of_code_point)
next
  case (3 c d cs)
  have "unat c < 2 ^ 16"
    using unsigned_less [of c, where ?'a = nat] by simp
  then have c: "unat c < 0x110000"
    by simp
  have pair: "0x10000 + (unat c - 0xD800) * 0x400 + (unat d - 0xDC00) < 0x110000"
    if "is_high_surrogate c" and "is_low_surrogate d"
  proof -
    from that have "unat c - 0xD800 < 0x400" and "unat d - 0xDC00 < 0x400"
      unfolding is_high_surrogate_def is_low_surrogate_def by linarith+
    then have "(unat c - 0xD800) * 0x400 + (unat d - 0xDC00) < 0x400 * 0x400"
      by linarith
    then show ?thesis
      by simp
  qed
  from 3 c pair show ?case
    by (simp add: bytes_utf8_of_code_point)
qed


subsection \<open>What \<open>emitBinary\<close> returns, branch by branch\<close>

lemma encodeBinary_emitBinary:
  "encodeBinary e wr = map_sum id (\<lambda>bs. push bs wr) (emitBinary e)"
  unfolding emitBinary_def encodeBinary_append [of e wr]
  by (cases "encodeBinary e new_Writer") simp_all

lemma encodeEach_emitEach:
  "encodeEach xs wr = map_sum id (\<lambda>bs. push bs wr) (emitEach xs)"
proof -
  have "encodeEach xs wr = map_sum id (\<lambda>w. push (buffer w) wr) (encodeEach xs new_Writer)"
    by (rule encodeEach_append) (rule encodeBinary_append)
  then show ?thesis
    unfolding emitEach_def by (cases "encodeEach xs new_Writer") simp_all
qed

lemma emitBinary_bytes: "emitBinary e = Inr bs \<Longrightarrow> list_all is_byte bs"
  unfolding emitBinary_def
  by (cases "encodeBinary e new_Writer")
    (auto dest!: encodeBinary_bytes simp: buffer_new_Writer)

lemma emitEach_Nil: "emitEach [] = Inr []"
  by (simp add: emitEach_def buffer_new_Writer)

lemma emitEach_Cons:
  "emitEach (x # xs) =
     (case emitBinary x of
        Inl e \<Rightarrow> Inl e
      | Inr b \<Rightarrow> (case emitEach xs of Inl e \<Rightarrow> Inl e | Inr bs \<Rightarrow> Inr (b @ bs)))"
proof (cases "emitBinary x")
  case (Inl e)
  then show ?thesis
    by (simp add: emitEach_def encodeBinary_emitBinary [of x new_Writer])
next
  case (Inr b)
  then have "emitEach (x # xs) = map_sum id buffer (encodeEach xs (push b new_Writer))"
    unfolding emitEach_def
    by (cases "encodeEach xs (push b new_Writer)")
      (simp_all add: encodeBinary_emitBinary [of x new_Writer])
  also have "\<dots> = map_sum id (\<lambda>bs. b @ bs) (emitEach xs)"
    unfolding encodeEach_emitEach [of xs "push b new_Writer"]
    by (cases "emitEach xs") (simp_all add: push_push buffer_push_new)
  finally show ?thesis
    using Inr by (cases "emitEach xs") simp_all
qed

lemma emitEach_bytes: "emitEach xs = Inr bs \<Longrightarrow> list_all is_byte bs"
proof (induction xs arbitrary: bs)
  case Nil
  then show ?case
    by (simp add: emitEach_Nil)
next
  case (Cons x xs)
  then show ?case
    by (auto simp: emitEach_Cons dest: emitBinary_bytes split: sum.splits)
qed

lemma emitBinary_Seq:
  "emitBinary (Seq xs) =
     (case emitEach xs of
        Inl e \<Rightarrow> Inl e
      | Inr body \<Rightarrow> Inr (2 # uint32_be (length body) @ body))"
proof (cases "emitEach xs")
  case (Inl e)
  then show ?thesis
    unfolding emitBinary_def encodeBinary_Seq emitEach_def
    by (simp split: sum.splits)
next
  case (Inr body)
  then have "map (\<lambda>b. b mod 256) body = body"
    by (intro mod_256_bytes emitEach_bytes)
  with Inr show ?thesis
    unfolding emitBinary_def encodeBinary_Seq emitEach_def
    by (auto simp: buffer_push_new split: sum.splits)
qed

lemma emitBinary_StringLiteral:
  "emitBinary (StringLiteral s) =
     Inr (1 # uint32_be (length (TextEncoder_encode s)) @ TextEncoder_encode s)"
  unfolding emitBinary_def encodeBinary_StringLiteral
  by (simp add: buffer_push_new mod_256_bytes bytes_TextEncoder_encode)

lemma emitBinary_IntLiteral:
  "emitBinary (IntLiteral s) =
     (case BigInt s of None \<Rightarrow> Inl SyntaxError | Some n \<Rightarrow> Inr (0 # varint n))"
  unfolding emitBinary_def encodeBinary_IntLiteral
  by (simp add: buffer_push_new split: option.split)

lemma emitBinary_BytesLiteral:
  "emitBinary (BytesLiteral s) =
     Inr (10 # uint32_be (length (bytes_loop s 0 []))
            @ map (\<lambda>v. ToInt32 v AND 0xff) (bytes_loop s 0 []))"
  unfolding emitBinary_def encodeBinary_BytesLiteral
  by (simp only: sum.case buffer_push_new)

lemma emit_args_eq:
  "emit_args args =
     (case args of
        None \<Rightarrow> Inr []
      | Some as \<Rightarrow> if length as < 3 then emitEach as else emitBinary (Seq as))"
  by (simp add: emit_args_def encode_args_def emitEach_def emitBinary_def buffer_new_Writer
      split: option.split del: encodeBinary.simps)

lemma encode_args_emit_args:
  "encode_args args wr = map_sum id (\<lambda>bs. push bs wr) (emit_args args)"
proof -
  have "encode_args args wr = map_sum id (\<lambda>w. push (buffer w) wr) (encode_args args new_Writer)"
    by (rule encode_args_append) (rule encodeBinary_append)
  then show ?thesis
    unfolding emit_args_def by (cases "encode_args args new_Writer") simp_all
qed

lemma annots_block_eq:
  "annots_block annots =
     (case annots of
        None \<Rightarrow> []
      | Some an \<Rightarrow>
          if an = [] then []
          else uint32_be (length (TextEncoder_encode (join (str '' '') an)))
                 @ TextEncoder_encode (join (str '' '') an))"
  by (simp add: annots_block_def mod_256_bytes bytes_TextEncoder_encode split: option.split)

lemma emitBinary_Prim:
  "emitBinary (Prim name args annots) =
     (if primTags name = Undefined then Inl (TypeError name)
      else
        case emit_args args of
          Inl e \<Rightarrow> Inl e
        | Inr a \<Rightarrow> Inr (prim_header name args annots @ a @ annots_block annots))"
  unfolding emitBinary_def encodeBinary_Prim encode_args_emit_args
  by (cases "emit_args args") (simp_all add: push_push buffer_push_new)

subsection \<open>The primitive table\<close>

lemma fold_upd_map_of:
  "fold (\<lambda>(v, i) m. m(v \<mapsto> i)) xs m = m ++ map_of (rev xs)"
proof (induction xs arbitrary: m)
  case Nil
  show ?case
    by simp
next
  case (Cons x xs)
  obtain v i where x: "x = (v, i)"
    by (cases x)
  have "fold (\<lambda>(v, i) m. m(v \<mapsto> i)) (x # xs) m = m(v \<mapsto> i) ++ map_of (rev xs)"
    by (simp only: x fold_simps comp_apply prod.case Cons.IH)
  also have "m(v \<mapsto> i) = m ++ [v \<mapsto> i]"
    by simp
  also have "(m ++ [v \<mapsto> i]) ++ map_of (rev xs) = m ++ map_of (rev (x # xs))"
    by (simp add: x)
  finally show ?case .
qed

lemma primTags_own_map_of:
  "primTags_own = map_of (rev (zip primitives [0 ..< length primitives]))"
  by (simp add: primTags_own_def fold_upd_map_of)

lemma dom_primTags_own: "dom primTags_own = set primitives"
proof -
  have "fst ` set (zip primitives [0 ..< length primitives]) = set primitives"
    by (metis set_map map_fst_zip length_upt diff_zero)
  then show ?thesis
    by (simp add: primTags_own_map_of dom_map_of_conv_image_fst)
qed

lemma primTags_own_SomeD:
  assumes "primTags_own name = Some i"
  shows "i < length primitives \<and> primitives ! i = name"
proof -
  from assms have "(name, i) \<in> set (zip primitives [0 ..< length primitives])"
    unfolding primTags_own_map_of by (auto dest: map_of_SomeD)
  then obtain k where "k < length primitives" and "name = primitives ! k"
    and "i = [0 ..< length primitives] ! k"
    by (auto simp: set_zip)
  then show ?thesis
    by simp
qed

lemma length_primitives: "length primitives = 141"
  by (simp add: primitives_def)

lemma primTags_in_table:
  assumes "name \<in> set primitives"
  obtains i where "primTags name = Number (int i)" and "i < 141" and "primitives ! i = name"
proof -
  from assms obtain i where i: "primTags_own name = Some i"
    using dom_primTags_own by auto
  with primTags_own_SomeD [OF i] that show thesis
    by (simp add: primTags_def length_primitives)
qed

lemma primTags_not_in_table:
  assumes "name \<notin> set primitives"
  shows "primTags name = (if name \<in> set Object_prototype_keys then Builtin else Undefined)"
proof -
  from assms have "primTags_own name = None"
    using dom_primTags_own by auto
  then show ?thesis
    by (simp add: primTags_def)
qed

lemma primTags_Pair: "primTags (str ''Pair'') = Number 7"
  by (simp add: primTags_def primTags_own_def primitives_def str_def)

lemma primTags_PAIR: "primTags (str ''PAIR'') = Number 66"
  by (simp add: primTags_def primTags_own_def primitives_def str_def)

lemma constructor_absent: "str ''constructor'' \<notin> set primitives"
  by (simp add: primitives_def str_def)

lemma primTags_constructor: "primTags (str ''constructor'') = Builtin"
  by (simp add: primTags_not_in_table constructor_absent Object_prototype_keys_def)

subsection \<open>The platform functions on literals\<close>

lemmas js_text_defs = str_def is_white_space_def is_prefix_0_def all_digits_def digit_of_def
  digits_value_def Let_def

lemma BigInt_0: "BigInt (str ''0'') = Some 0"
  by (simp add: BigInt_def js_text_defs)

lemma BigInt_1: "BigInt (str ''1'') = Some 1"
  by (simp add: BigInt_def js_text_defs)

lemma BigInt_2: "BigInt (str ''2'') = Some 2"
  by (simp add: BigInt_def js_text_defs)

lemma BigInt_minus_1: "BigInt (str ''-1'') = Some (- 1)"
  by (simp add: BigInt_def js_text_defs)

lemma BigInt_minus_0: "BigInt (str ''-0'') = Some 0"
  by (simp add: BigInt_def js_text_defs)

lemma varint_0: "varint 0 = [0]"
  by (simp add: varint_def first_byte_def next_bytes.simps)

lemma varint_1: "varint 1 = [1]"
  by (simp add: varint_def first_byte_def next_bytes.simps)

lemma varint_2: "varint 2 = [2]"
  by (simp add: varint_def first_byte_def next_bytes.simps)

lemma varint_minus_1: "varint (- 1) = [0x41]"
  by (simp add: varint_def first_byte_def next_bytes.simps)

lemma bytes_loop_0a0b: "bytes_loop (str ''0a0b'') 0 [] = [Number 10, Number 11]"
  by (simp add: bytes_loop.simps parseInt_def js_slice_def js_text_defs)

section \<open>The properties of the specification\<close>

subsection \<open>Primitive indices\<close>

lemma distinct_primitives: "distinct primitives"
  by (simp add: primitives_def str_def)

lemma primTags_nth:
  assumes "i < length primitives"
  shows "primTags (primitives ! i) = Number (int i)"
proof -
  from assms have "primitives ! i \<in> set primitives"
    by simp
  then obtain j where j: "primTags (primitives ! i) = Number (int j)"
    and "j < 141" and "primitives ! j = primitives ! i"
    by (rule primTags_in_table)
  with assms distinct_primitives have "j = i"
    by (simp add: nth_eq_iff_index_eq length_primitives)
  with j show ?thesis
    by simp
qed

lemma prim_header_nth:
  assumes "i < length primitives"
  shows "prim_header (primitives ! i) args annots ! 1 = int i"
  using assms by (simp add: prim_header_def primTags_nth ToInt32_and_255 length_primitives)

text \<open>
  C5: the table gives \<open>Pair\<close> the index 7 and \<open>PAIR\<close> the index 66; the byte after the tag byte
  is the index of the primitive; \<open>PAIR\<close> alone encodes to 03 42, and \<open>Pair\<close> applied to the
  integers 1 and 2 encodes to 07 07 00 01 00 02.
\<close>

theorem primitive_index_follows_tag:
  "primitives ! 7 = str ''Pair'' \<and> primitives ! 66 = str ''PAIR''
   \<and> primTags (str ''Pair'') = Number 7 \<and> primTags (str ''PAIR'') = Number 66
   \<and> emitBinary (Prim (str ''PAIR'') None None) = Inr [0x03, 0x42]
   \<and> emitBinary (Prim (str ''Pair'') (Some [IntLiteral (str ''1''), IntLiteral (str ''2'')]) None)
       = Inr [0x07, 0x07, 0x00, 0x01, 0x00, 0x02]
   \<and> (i < length primitives \<longrightarrow> emitBinary (Prim (primitives ! i) args annots) = Inr bs
        \<longrightarrow> bs ! 1 = int i)"
proof -
  have 1: "primitives ! 7 = str ''Pair''" and 2: "primitives ! 66 = str ''PAIR''"
    by (simp_all add: primitives_def)
  have 3: "emitBinary (Prim (str ''PAIR'') None None) = Inr [0x03, 0x42]"
    by (simp add: emitBinary_Prim primTags_PAIR emit_args_eq prim_header_def prim_tag_def
        args_length_def js_or_def js_add_def js_mul_def annots_block_def ToInt32_and_255)
  have 4: "emitBinary (Prim (str ''Pair'') (Some [IntLiteral (str ''1''), IntLiteral (str ''2'')]) None)
       = Inr [0x07, 0x07, 0x00, 0x01, 0x00, 0x02]"
    by (simp add: emitBinary_Prim primTags_Pair emit_args_eq prim_header_def prim_tag_def
        args_length_def js_or_def js_add_def js_mul_def annots_block_def ToInt32_and_255
        emitEach_Cons emitEach_Nil emitBinary_IntLiteral BigInt_1 BigInt_2 varint_1 varint_2)
  have 5: "bs ! 1 = int i"
    if "i < length primitives" and "emitBinary (Prim (primitives ! i) args annots) = Inr bs"
  proof -
    from that(2) obtain a where "bs = prim_header (primitives ! i) args annots @ a @ annots_block annots"
      unfolding emitBinary_Prim by (auto split: if_splits sum.splits)
    then have "bs ! 1 = prim_header (primitives ! i) args annots ! 1"
      by (simp add: prim_header_def)
    with prim_header_nth [OF that(1)] show ?thesis
      by simp
  qed
  from 1 2 3 4 5 primTags_Pair primTags_PAIR show ?thesis
    by blast
qed

theorem primitive_index_follows_tag_witness:
  "(66 :: nat) < length primitives
   \<and> emitBinary (Prim (primitives ! 66) None None) = Inr [0x03, 0x42]
   \<and> [0x03, 0x42 :: int] ! 1 = int 66"
proof -
  have less: "(66 :: nat) < length primitives"
    by (simp add: length_primitives)
  from primitive_index_follows_tag [of 66 None None "[0x03, 0x42]"]
  have table: "primitives ! 66 = str ''PAIR''"
    and emit: "emitBinary (Prim (str ''PAIR'') None None) = Inr [0x03, 0x42]"
    and byte: "66 < length primitives \<longrightarrow>
      emitBinary (Prim (primitives ! 66) None None) = Inr [0x03, 0x42] \<longrightarrow>
      [0x03, 0x42 :: int] ! 1 = int 66"
    by blast+
  from emit table have "emitBinary (Prim (primitives ! 66) None None) = Inr [0x03, 0x42]"
    by simp
  with less byte show ?thesis
    by blast
qed

subsection \<open>Absent and empty lists\<close>

lemma annots_block_empty: "annots_block None = []" "annots_block (Some []) = []"
  by (simp_all add: annots_block_def)

lemma prim_tag_annots_empty: "prim_tag args (Some []) = prim_tag args None"
  by (simp add: prim_tag_def)

lemma prim_tag_args_empty: "prim_tag (Some []) annots = prim_tag None annots"
  by (simp add: prim_tag_def args_length_def js_or_def)

lemma encode_args_empty: "encode_args (Some []) wr = encode_args None wr"
  by (simp add: encode_args_def)

text \<open>
  C8: an application encodes to the same bytes whether its annotation list is absent or
  empty (the tag is the same and no annotation block is appended), and whether its argument
  list is absent or empty.
\<close>

theorem absent_list_encodes_as_empty_list:
  "encodeBinary (Prim name args None) wr = encodeBinary (Prim name args (Some [])) wr
   \<and> encodeBinary (Prim name None annots) wr = encodeBinary (Prim name (Some []) annots) wr
   \<and> emitBinary (Prim name args None) = emitBinary (Prim name args (Some []))
   \<and> emitBinary (Prim name None annots) = emitBinary (Prim name (Some []) annots)
   \<and> prim_tag args None = prim_tag args (Some [])
   \<and> annots_block (Some []) = []"
proof -
  have annots: "encodeBinary (Prim name args None) w = encodeBinary (Prim name args (Some [])) w"
    for w
    unfolding encodeBinary_Prim
    by (simp only: annots_block_empty prim_header_def prim_tag_annots_empty)
  have args: "encodeBinary (Prim name None annots) w = encodeBinary (Prim name (Some []) annots) w"
    for w
    unfolding encodeBinary_Prim
    by (simp only: encode_args_empty prim_header_def prim_tag_args_empty)
  show ?thesis
    unfolding emitBinary_def
    by (simp only: annots args annots_block_empty prim_tag_annots_empty simp_thms)
qed

subsection \<open>Negative zero\<close>

text \<open>
  C9: the integer text \<open>-0\<close> encodes as zero, to the bytes 00 00: \<open>BigInt\<close> yields 0 for it, so
  the sign test fails; no encoding of magnitude zero carries the sign bit.
\<close>

theorem negative_zero_encodes_as_zero:
  "BigInt (str ''-0'') = Some 0
   \<and> emitBinary (IntLiteral (str ''-0'')) = Inr [0x00, 0x00]
   \<and> emitBinary (IntLiteral (str ''-0'')) = emitBinary (IntLiteral (str ''0''))
   \<and> (BigInt s = Some n \<longrightarrow> \<bar>n\<bar> = 0 \<longrightarrow> emitBinary (IntLiteral s) = Inr [0x00, 0x00])"
  by (simp add: emitBinary_IntLiteral BigInt_minus_0 BigInt_0 varint_0)

theorem negative_zero_encodes_as_zero_witness:
  "BigInt (str ''-0'') = Some 0 \<and> \<bar>0 :: int\<bar> = 0
   \<and> emitBinary (IntLiteral (str ''-0'')) = Inr [0x00, 0x00]"
  using negative_zero_encodes_as_zero [of "str ''-0''" 0] by simp

subsection \<open>Bytes only\<close>

text \<open>
  C10: every element of the sequence that \<open>emitBinary\<close> returns lies between 0 and 255,
  and every operation of the writer keeps a buffer of such elements one.
\<close>

theorem emitted_elements_are_bytes:
  "(emitBinary expr = Inr bs \<longrightarrow> (\<forall>b \<in> set bs. 0 \<le> b \<and> b \<le> 255))
   \<and> list_all is_byte (buffer new_Writer)
   \<and> (list_all is_byte (buffer wr) \<longrightarrow>
        list_all is_byte (buffer (writeUint8 val wr))
        \<and> list_all is_byte (buffer (writeUint16 val wr))
        \<and> list_all is_byte (buffer (writeUint32 val wr))
        \<and> list_all is_byte (buffer (writeBytes vals wr)))"
proof -
  have "\<forall>b \<in> set bs. 0 \<le> b \<and> b \<le> 255" if "emitBinary expr = Inr bs"
    using emitBinary_bytes [OF that] by (simp add: list_all_iff is_byte_def)
  then show ?thesis
    by (simp add: bytes_writeUint8 bytes_writeUint16 bytes_writeUint32 bytes_writeBytes
        buffer_new_Writer)
qed

theorem emitted_elements_are_bytes_witness:
  "emitBinary (IntLiteral (str ''-1'')) = Inr [0x00, 0x41]
   \<and> (0 :: int) \<le> 0x00 \<and> (0x00 :: int) \<le> 255 \<and> (0 :: int) \<le> 0x41 \<and> (0x41 :: int) \<le> 255
   \<and> list_all is_byte (buffer new_Writer)
   \<and> list_all is_byte (buffer (writeUint32 (Number 300) new_Writer))"
proof -
  have emit: "emitBinary (IntLiteral (str ''-1'')) = Inr [0x00, 0x41]"
    by (simp add: emitBinary_IntLiteral BigInt_minus_1 varint_minus_1)
  from emitted_elements_are_bytes [of "IntLiteral (str ''-1'')" "[0x00, 0x41]" new_Writer
      "Number 300" "[]"] emit
  show ?thesis
    by simp
qed

subsection \<open>When the error for an unknown primitive is raised\<close>

text \<open>
  The error names an application node of the tree whose lookup is \<open>undefined\<close>, so a name
  outside the table; a tree whose names are all in the table does not raise it.
\<close>

lemma emitEach_Inl: "emitEach xs = Inl e \<Longrightarrow> \<exists>x \<in> set xs. emitBinary x = Inl e"
proof (induction xs)
  case Nil
  then show ?case
    by (simp add: emitEach_Nil)
next
  case (Cons x xs)
  then show ?case
    by (auto simp: emitEach_Cons split: sum.splits)
qed

lemma TypeError_name:
  "emitBinary e = Inl (TypeError n) \<Longrightarrow> n \<in> set (prim_names e) \<and> primTags n = Undefined"
proof (induction e)
  case (Seq xs)
  from Seq.prems have "emitEach xs = Inl (TypeError n)"
    by (simp add: emitBinary_Seq split: sum.splits)
  then obtain x where "x \<in> set xs" and "emitBinary x = Inl (TypeError n)"
    by (auto dest: emitEach_Inl)
  with Seq.IH [of x] show ?case
    by auto
next
  case (StringLiteral s)
  then show ?case
    by (simp add: emitBinary_StringLiteral)
next
  case (IntLiteral s)
  then show ?case
    by (simp add: emitBinary_IntLiteral split: option.splits)
next
  case (BytesLiteral s)
  then show ?case
    by (simp add: emitBinary_BytesLiteral)
next
  case (Prim name args annots)
  show ?case
  proof (cases "primTags name = Undefined")
    case True
    with Prim.prems show ?thesis
      by (simp add: emitBinary_Prim)
  next
    case False
    with Prim.prems have args: "emit_args args = Inl (TypeError n)"
      by (simp add: emitBinary_Prim split: sum.splits)
    then obtain as where as: "args = Some as" and "emitEach as = Inl (TypeError n)"
      by (cases args) (auto simp: emit_args_eq emitBinary_Seq split: if_splits sum.splits)
    then obtain x where "x \<in> set as" and "emitBinary x = Inl (TypeError n)"
      by (auto dest: emitEach_Inl)
    with Prim.IH [of as x] as show ?thesis
      by auto
  qed
qed

lemma TypeError_absent:
  assumes "emitBinary e = Inl (TypeError n)"
  shows "n \<notin> set primitives"
proof
  assume "n \<in> set primitives"
  then obtain i where "primTags n = Number (int i)"
    by (rule primTags_in_table)
  with TypeError_name [OF assms] show False
    by simp
qed

lemma no_TypeError_in_table:
  "set (prim_names e) \<subseteq> set primitives \<Longrightarrow> emitBinary e \<noteq> Inl (TypeError n)"
  using TypeError_name [of e n] TypeError_absent [of e n] by auto

text \<open>
  C3 at the name \<open>constructor\<close>, which the table lacks: the lookup finds the property that
  \<open>Object.prototype\<close> provides, so no error is raised, and the index byte written is 0.
\<close>

theorem inherited_name_is_not_rejected:
  "str ''constructor'' \<notin> set primitives
   \<and> primTags (str ''constructor'') \<noteq> Undefined
   \<and> emitBinary (Prim (str ''constructor'') None None) = Inr [0x03, 0x00]"
  by (simp add: constructor_absent primTags_constructor emitBinary_Prim emit_args_eq
      prim_header_def prim_tag_def args_length_def js_or_def js_add_def js_mul_def
      annots_block_def ToInt32_and_255 ToInt32_def)

subsection \<open>The bits of the varint\<close>

lemma split_low:
  fixes r q :: nat
  assumes "r < 2 ^ k"
  shows "take_bit k (r + 2 ^ k * q) = r" and "drop_bit k (r + 2 ^ k * q) = q"
  using assms by (simp_all add: take_bit_eq_mod drop_bit_eq_div)

lemma flags_low:
  fixes r :: nat
  assumes "r < 64"
  shows "take_bit 6 (r + 64 * (of_bool p + 2 * of_bool q)) = r"
    and "bit (r + 64 * (of_bool p + 2 * of_bool q)) 6 \<longleftrightarrow> p"
    and "bit (r + 64 * (of_bool p + 2 * of_bool q)) 7 \<longleftrightarrow> q"
proof -
  let ?x = "r + 64 * (of_bool p + 2 * of_bool q)"
  from assms have r: "r < 2 ^ 6"
    by simp
  from split_low [OF r, of "of_bool p + 2 * of_bool q"]
  have low: "take_bit 6 ?x = r" and high: "drop_bit 6 ?x = of_bool p + 2 * of_bool q"
    by simp_all
  show "take_bit 6 ?x = r"
    by (fact low)
  show "bit ?x 6 \<longleftrightarrow> p"
    unfolding bit_iff_odd_drop_bit high by simp
  have "drop_bit 7 ?x = drop_bit 1 (drop_bit 6 ?x)"
    by simp
  also have "\<dots> = of_bool q"
    unfolding high by (cases p) (simp_all add: drop_bit_eq_div)
  finally show "bit ?x 7 \<longleftrightarrow> q"
    unfolding bit_iff_odd_drop_bit by simp
qed

lemma flag_next:
  fixes r :: nat
  assumes "r < 128"
  shows "take_bit 7 (r + 128 * of_bool q) = r"
    and "bit (r + 128 * of_bool q) 7 \<longleftrightarrow> q"
proof -
  from assms have r: "r < 2 ^ 7"
    by simp
  from split_low [OF r, of "of_bool q"]
  have low: "take_bit 7 (r + 128 * of_bool q) = r"
    and high: "drop_bit 7 (r + 128 * of_bool q) = of_bool q"
    by simp_all
  show "take_bit 7 (r + 128 * of_bool q) = r"
    by (fact low)
  show "bit (r + 128 * of_bool q) 7 \<longleftrightarrow> q"
    unfolding bit_iff_odd_drop_bit high by simp
qed

lemma first_byte_nat:
  "first_byte n =
     int (nat \<bar>n\<bar> mod 64 + 64 * (of_bool (n < 0) + 2 * of_bool (nat \<bar>n\<bar> div 64 \<noteq> 0)))"
proof -
  define m where "m = nat \<bar>n\<bar>"
  have abs: "\<bar>n\<bar> = int m"
    by (simp add: m_def)
  have md: "int m mod 64 = int (m mod 64)"
    by (simp add: zmod_int)
  have dv: "int m div 64 = int (m div 64)"
    by (simp add: zdiv_int)
  show ?thesis
    unfolding first_byte_def m_def [symmetric] abs by (simp add: md dv)
qed

lemma first_byte_bits:
  "take_bit 6 (first_byte n) = take_bit 6 \<bar>n\<bar>"
  "bit (first_byte n) 6 \<longleftrightarrow> n < 0"
  "bit (first_byte n) 7 \<longleftrightarrow> drop_bit 6 \<bar>n\<bar> \<noteq> 0"
proof -
  define m where "m = nat \<bar>n\<bar>"
  define x where "x = m mod 64 + 64 * (of_bool (n < 0) + 2 * of_bool (m div 64 \<noteq> 0))"
  have abs: "\<bar>n\<bar> = int m"
    by (simp add: m_def)
  have first: "first_byte n = int x"
    by (simp only: first_byte_nat m_def x_def)
  have r: "m mod 64 < 64"
    by simp
  from flags_low [OF r, of "n < 0" "m div 64 \<noteq> 0"]
  have low: "take_bit 6 x = m mod 64" and sign: "bit x 6 \<longleftrightarrow> n < 0"
    and more: "bit x 7 \<longleftrightarrow> m div 64 \<noteq> 0"
    by (simp_all only: x_def)
  have "take_bit 6 (int x) = int (m mod 64)"
    by (simp only: take_bit_of_nat low)
  also have "\<dots> = take_bit 6 (int m)"
    by (simp only: take_bit_of_nat) (simp add: take_bit_eq_mod)
  finally show "take_bit 6 (first_byte n) = take_bit 6 \<bar>n\<bar>"
    by (simp only: first abs)
  show "bit (first_byte n) 6 \<longleftrightarrow> n < 0"
    by (simp only: first bit_of_nat_iff_bit sign)
  have "drop_bit 6 (int m) \<noteq> 0 \<longleftrightarrow> m div 64 \<noteq> 0"
    by (simp only: drop_bit_of_nat) (simp add: drop_bit_eq_div)
  then show "bit (first_byte n) 7 \<longleftrightarrow> drop_bit 6 \<bar>n\<bar> \<noteq> 0"
    by (simp only: first abs bit_of_nat_iff_bit more)
qed

lemma drop_bit_7_Suc: "drop_bit (7 * Suc k) m = drop_bit (7 * k) (m div 128)" for m :: nat
proof -
  have "drop_bit (7 * k) (m div 128) = drop_bit (7 * k) (drop_bit 7 m)"
    by (simp add: drop_bit_eq_div)
  also have "\<dots> = drop_bit (7 * Suc k) m"
    by (simp add: ac_simps)
  finally show ?thesis ..
qed

lemma varint_drop_bit: "varint n = first_byte n # next_bytes (nat (drop_bit 6 \<bar>n\<bar>))"
  by (simp add: varint_def drop_bit_eq_div)

lemma next_bytes_Nil_iff: "next_bytes m = [] \<longleftrightarrow> m = 0"
  by (subst next_bytes.simps) simp

lemma next_bytes_step:
  "m \<noteq> 0 \<Longrightarrow>
    next_bytes m = int (m mod 128 + 128 * of_bool (m div 128 \<noteq> 0)) # next_bytes (m div 128)"
  by (subst next_bytes.simps) simp

lemma length_next_bytes: "k < length (next_bytes m) \<longleftrightarrow> drop_bit (7 * k) m \<noteq> 0"
proof (induction k arbitrary: m)
  case 0
  show ?case
    by (simp add: next_bytes_Nil_iff)
next
  case (Suc k)
  show ?case
  proof (cases "m = 0")
    case True
    then show ?thesis
      by (simp add: next_bytes_0)
  next
    case False
    from False Suc [of "m div 128"] show ?thesis
      by (simp only: drop_bit_7_Suc) (simp add: next_bytes_step)
  qed
qed

lemma next_bytes_nth:
  "k < length (next_bytes m) \<Longrightarrow>
    next_bytes m ! k =
      int (take_bit 7 (drop_bit (7 * k) m) + 128 * of_bool (drop_bit (7 * Suc k) m \<noteq> 0))"
proof (induction k arbitrary: m)
  case 0
  then have "m \<noteq> 0"
    using next_bytes_Nil_iff [of m] by auto
  then show ?case
    by (simp add: next_bytes_step take_bit_eq_mod drop_bit_eq_div)
next
  case (Suc k)
  then have m: "m \<noteq> 0"
    using next_bytes_Nil_iff [of m] by auto
  note shift = drop_bit_7_Suc [of _ m]
  from Suc.prems m have "k < length (next_bytes (m div 128))"
    by (simp add: next_bytes_step)
  from Suc.IH [OF this] m show ?case
    unfolding shift [of k] shift [of "Suc k"] by (simp add: next_bytes_step)
qed

lemma next_bytes_bits:
  assumes "k < length (next_bytes m)"
  shows "take_bit 7 (next_bytes m ! k) = int (take_bit 7 (drop_bit (7 * k) m))"
    and "bit (next_bytes m ! k) 7 \<longleftrightarrow> drop_bit (7 * Suc k) m \<noteq> 0"
proof -
  have r: "take_bit 7 (drop_bit (7 * k) m) < 128"
    by (simp add: take_bit_eq_mod)
  note bits = flag_next [OF r, of "drop_bit (7 * Suc k) m \<noteq> 0"]
  show "take_bit 7 (next_bytes m ! k) = int (take_bit 7 (drop_bit (7 * k) m))"
    unfolding next_bytes_nth [OF assms] take_bit_of_nat bits(1) ..
  show "bit (next_bytes m ! k) 7 \<longleftrightarrow> drop_bit (7 * Suc k) m \<noteq> 0"
    unfolding next_bytes_nth [OF assms] bit_of_nat_iff_bit bits(2) ..
qed


text \<open>
  C2: an integer node holding \<open>n\<close> encodes as the tag byte 0 followed by the sign-magnitude
  varint of \<open>n\<close>. The first byte of the varint has the low 6 bits of \<open>\<bar>n\<bar>\<close> in bits 0 to 5,
  bit 6 set iff \<open>n < 0\<close>, and bit 7 set iff \<open>\<bar>n\<bar>\<close> shifted right by 6 is not zero. The byte
  number \<open>k\<close> after it exists iff that rest of the magnitude, shifted right by \<open>7 * k\<close>, is
  not zero; it has the next 7 bits in bits 0 to 6 and bit 7 set iff more remains. Zero
  gives the single byte 00; 0, 1 and -1 encode to 00 00, 00 01 and 00 41.
\<close>

theorem integer_is_sign_magnitude_varint:
  "(BigInt s = Some n \<longrightarrow> emitBinary (IntLiteral s) = Inr (0x00 # varint n))
   \<and> varint n = first_byte n # next_bytes (nat (drop_bit 6 \<bar>n\<bar>))
   \<and> take_bit 6 (first_byte n) = take_bit 6 \<bar>n\<bar>
   \<and> (bit (first_byte n) 6 \<longleftrightarrow> n < 0)
   \<and> (bit (first_byte n) 7 \<longleftrightarrow> drop_bit 6 \<bar>n\<bar> \<noteq> 0)
   \<and> is_byte (first_byte n)
   \<and> (k < length (next_bytes m) \<longleftrightarrow> drop_bit (7 * k) m \<noteq> 0)
   \<and> (k < length (next_bytes m) \<longrightarrow>
        take_bit 7 (next_bytes m ! k) = int (take_bit 7 (drop_bit (7 * k) m))
        \<and> (bit (next_bytes m ! k) 7 \<longleftrightarrow> drop_bit (7 * Suc k) m \<noteq> 0)
        \<and> is_byte (next_bytes m ! k))
   \<and> varint 0 = [0x00]
   \<and> emitBinary (IntLiteral (str ''0'')) = Inr [0x00, 0x00]
   \<and> emitBinary (IntLiteral (str ''1'')) = Inr [0x00, 0x01]
   \<and> emitBinary (IntLiteral (str ''-1'')) = Inr [0x00, 0x41]"
proof -
  have emit: "emitBinary (IntLiteral s) = Inr (0x00 # varint n)" if "BigInt s = Some n"
    using that by (simp add: emitBinary_IntLiteral)
  have byte: "is_byte (next_bytes m ! k)" if "k < length (next_bytes m)"
    using bytes_next_bytes [of m] that by (simp add: list_all_length)
  have examples: "emitBinary (IntLiteral (str ''0'')) = Inr [0x00, 0x00]"
    "emitBinary (IntLiteral (str ''1'')) = Inr [0x00, 0x01]"
    "emitBinary (IntLiteral (str ''-1'')) = Inr [0x00, 0x41]"
    by (simp_all add: emitBinary_IntLiteral BigInt_0 BigInt_1 BigInt_minus_1 varint_0 varint_1
        varint_minus_1)
  from emit byte examples varint_drop_bit [of n] first_byte_bits [of n] is_byte_first_byte [of n]
    length_next_bytes [of k m] next_bytes_bits [of k m] varint_0
  show ?thesis
    by blast
qed

theorem integer_is_sign_magnitude_varint_witness:
  "BigInt (str ''-1'') = Some (- 1)
   \<and> emitBinary (IntLiteral (str ''-1'')) = Inr (0x00 # varint (- 1))
   \<and> (0 :: nat) < length (next_bytes 1)
   \<and> take_bit 7 (next_bytes 1 ! 0) = int (take_bit 7 (drop_bit (7 * 0) 1))
   \<and> (bit (next_bytes 1 ! 0) 7 \<longleftrightarrow> drop_bit (7 * Suc 0) (1 :: nat) \<noteq> 0)"
proof -
  have len: "(0 :: nat) < length (next_bytes 1)"
    by (simp add: next_bytes_step next_bytes_0)
  from integer_is_sign_magnitude_varint [of "str ''-1''" "- 1" 0 1] BigInt_minus_1 len
  show ?thesis
    by blast
qed

subsection \<open>Sequences\<close>

lemma emitEach_map: "map emitBinary xs = map Inr bss \<Longrightarrow> emitEach xs = Inr (concat bss)"
proof (induction xs arbitrary: bss)
  case Nil
  then show ?case
    by (simp add: emitEach_Nil)
next
  case (Cons x xs)
  then obtain b bs where bss: "bss = b # bs" and x: "emitBinary x = Inr b"
    and xs: "map emitBinary xs = map Inr bs"
    by (cases bss) auto
  from Cons.IH [OF xs] x show ?case
    by (simp add: emitEach_Cons bss)
qed

lemma length_uint32_be: "length (uint32_be n) = 4"
  by (simp add: uint32_be_def)

lemma uint32_be_small: "n < 256 \<Longrightarrow> uint32_be n = [0, 0, 0, int n]"
  by (simp add: uint32_be_def)

text \<open>
  C4: a sequence node encodes as the tag byte 2, the four bytes of the total length of its
  children's encodings, most significant first, and those encodings in the children's
  order. Below \<open>2 ^ 32\<close> the four bytes stand for the length itself. The empty sequence
  encodes to 02 00 00 00 00, and the sequence of the integers 1 and 2 to
  02 00 00 00 04 00 01 00 02.
\<close>

theorem sequence_is_length_prefixed:
  "(map emitBinary xs = map Inr bss \<longrightarrow>
      emitBinary (Seq xs) = Inr (0x02 # uint32_be (length (concat bss)) @ concat bss))
   \<and> length (uint32_be n) = 4
   \<and> (n < 2 ^ 32 \<longrightarrow> be_value (uint32_be n) = int n)
   \<and> emitBinary (Seq []) = Inr [0x02, 0x00, 0x00, 0x00, 0x00]
   \<and> emitBinary (Seq [IntLiteral (str ''1''), IntLiteral (str ''2'')])
       = Inr [0x02, 0x00, 0x00, 0x00, 0x04, 0x00, 0x01, 0x00, 0x02]"
proof -
  have general: "emitBinary (Seq xs) = Inr (0x02 # uint32_be (length (concat bss)) @ concat bss)"
    if "map emitBinary xs = map Inr bss"
    using emitEach_map [OF that] by (simp add: emitBinary_Seq)
  have empty: "emitBinary (Seq []) = Inr [0x02, 0x00, 0x00, 0x00, 0x00]"
    by (simp add: emitBinary_Seq emitEach_Nil uint32_be_small)
  have example: "emitBinary (Seq [IntLiteral (str ''1''), IntLiteral (str ''2'')])
       = Inr [0x02, 0x00, 0x00, 0x00, 0x04, 0x00, 0x01, 0x00, 0x02]"
    by (simp add: emitBinary_Seq emitEach_Cons emitEach_Nil emitBinary_IntLiteral BigInt_1 BigInt_2
        varint_1 varint_2 uint32_be_small)
  from general empty example length_uint32_be [of n] be_value_uint32_be [of n] show ?thesis
    by blast
qed

theorem sequence_is_length_prefixed_witness:
  "map emitBinary [IntLiteral (str ''1''), IntLiteral (str ''2'')] = map Inr [[0x00, 0x01], [0x00, 0x02]]
   \<and> emitBinary (Seq [IntLiteral (str ''1''), IntLiteral (str ''2'')])
       = Inr (0x02 # uint32_be (length (concat [[0x00, 0x01], [0x00, 0x02 :: int]]))
                @ concat [[0x00, 0x01], [0x00, 0x02]])
   \<and> (4 :: nat) < 2 ^ 32 \<and> be_value (uint32_be 4) = 4"
proof -
  have children: "map emitBinary [IntLiteral (str ''1''), IntLiteral (str ''2'')]
    = map Inr [[0x00, 0x01], [0x00, 0x02]]"
    by (simp add: emitBinary_IntLiteral BigInt_1 BigInt_2 varint_1 varint_2)
  have small: "(4 :: nat) < 2 ^ 32"
    by simp
  from sequence_is_length_prefixed [of "[IntLiteral (str ''1''), IntLiteral (str ''2'')]"
      "[[0x00, 0x01], [0x00, 0x02]]" 4] children small
  show ?thesis
    by simp
qed

subsection \<open>Byte strings\<close>

lemma hex_digit_range:
  assumes "is_hex_digit c"
  shows "(48 \<le> unat c \<and> unat c \<le> 57) \<or> (97 \<le> unat c \<and> unat c \<le> 102)
    \<or> (65 \<le> unat c \<and> unat c \<le> 70)"
  using assms unfolding is_hex_digit_def digit_of_def Let_def
  by (simp split: if_splits)

lemma hex_digit_not_white_space: "is_hex_digit c \<Longrightarrow> \<not> is_white_space c"
  using hex_digit_range [of c] unfolding is_white_space_def Let_def by auto

lemma hex_digit_not_special:
  assumes "is_hex_digit c"
  shows "c \<noteq> of_char CHR ''+''" and "c \<noteq> of_char CHR ''-''" and "c \<noteq> of_char CHR ''x''"
    and "c \<noteq> of_char CHR ''X''"
  using hex_digit_range [OF assms] by auto

lemma parseInt_hex_pair:
  assumes "is_hex_digit a" and "is_hex_digit b"
  shows "parseInt [a, b] 16 = Number (int (16 * hex_value a + hex_value b))"
proof -
  have digits: "takeWhile (\<lambda>c. digit_of 16 c \<noteq> None) [a, b] = [a, b]"
    using assms by (simp add: is_hex_digit_def)
  have prefix: "\<not> is_prefix_0 ''xX'' [a, b]"
    using hex_digit_not_special [OF assms(2)] by (simp add: is_prefix_0_def)
  have white: "dropWhile is_white_space [a, b] = [a, b]"
    using hex_digit_not_white_space [OF assms(1)] by simp
  show ?thesis
    unfolding parseInt_def white Let_def
    using hex_digit_not_special [OF assms(1)] prefix digits
    by (simp add: digits_value_def hex_value_def)
qed


lemma js_slice_pair:
  assumes "Suc i < length s"
  shows "js_slice s i (i + 2) = [s ! i, s ! Suc i]"
proof -
  from assms have "drop i s = s ! i # s ! Suc i # drop (Suc (Suc i)) s"
    by (simp add: Cons_nth_drop_Suc)
  then show ?thesis
    by (simp add: js_slice_def numeral_2_eq_2)
qed

lemma bytes_loop_hex:
  "even (length s) \<Longrightarrow> list_all is_hex_digit s \<Longrightarrow> even i \<Longrightarrow> i \<le> length s \<Longrightarrow>
    bytes_loop s i bytes = bytes @ map (\<lambda>k. Number (hex_pair s k)) [i div 2 ..< length s div 2]"
proof (induction s i bytes rule: bytes_loop.induct)
  case (1 s i bytes)
  note even_length = "1.prems"(1) and hex = "1.prems"(2) and even_i = "1.prems"(3)
    and bound = "1.prems"(4)
  show ?case
  proof (cases "i < length s")
    case False
    with bound have "i = length s"
      by simp
    then show ?thesis
      by (subst bytes_loop.simps) simp
  next
    case True
    with even_length even_i have next_i: "Suc i < length s"
      by presburger
    then have pair: "js_slice s i (i + 2) = [s ! i, s ! Suc i]"
      by (rule js_slice_pair)
    from hex True next_i have "is_hex_digit (s ! i)" and "is_hex_digit (s ! Suc i)"
      by (simp_all add: list_all_length)
    then have "parseInt (js_slice s i (i + 2)) 16
      = Number (int (16 * hex_value (s ! i) + hex_value (s ! Suc i)))"
      unfolding pair by (rule parseInt_hex_pair)
    also from even_i have "\<dots> = Number (hex_pair s (i div 2))"
      by (simp add: hex_pair_def)
    finally have byte: "parseInt (js_slice s i (i + 2)) 16 = Number (hex_pair s (i div 2))" .
    from True even_length even_i have less: "i div 2 < length s div 2"
      by presburger
    have "bytes_loop s i bytes = bytes_loop s (i + 2) (bytes @ [Number (hex_pair s (i div 2))])"
      using True by (subst bytes_loop.simps) (simp only: byte if_True)
    also have "\<dots> = (bytes @ [Number (hex_pair s (i div 2))])
      @ map (\<lambda>k. Number (hex_pair s k)) [(i + 2) div 2 ..< length s div 2]"
      unfolding byte [symmetric]
      using True even_length hex even_i next_i by (intro "1.IH") simp_all
    also have "\<dots> = bytes @ map (\<lambda>k. Number (hex_pair s k)) [i div 2 ..< length s div 2]"
      using less by (simp add: upt_conv_Cons)
    finally show ?thesis .
  qed
qed

lemma ToInt32_hex_pair: "ToInt32 (Number (hex_pair s k)) AND 0xff = hex_pair s k mod 256"
  by (rule ToInt32_and_255)


lemma hex_value_less: "is_hex_digit c \<Longrightarrow> hex_value c < 16"
  unfolding is_hex_digit_def hex_value_def digit_of_def Let_def by (simp split: if_splits)

lemma hex_pair_byte:
  assumes "list_all is_hex_digit s" and "k < length s div 2"
  shows "hex_pair s k mod 256 = hex_pair s k"
proof -
  from assms(2) have "2 * k < length s" and "2 * k + 1 < length s"
    by linarith+
  with assms(1) have "hex_value (s ! (2 * k)) < 16" and "hex_value (s ! (2 * k + 1)) < 16"
    by (simp_all add: list_all_length hex_value_less)
  then have "16 * hex_value (s ! (2 * k)) + hex_value (s ! (2 * k + 1)) < 256"
    by linarith
  then show ?thesis
    unfolding hex_pair_def by simp
qed

lemma emitBinary_BytesLiteral_hex:
  assumes "even (length s)" and "list_all is_hex_digit s"
  shows "emitBinary (BytesLiteral s) =
    Inr (0x0A # uint32_be (length s div 2) @ map (hex_pair s) [0 ..< length s div 2])"
proof -
  have loop: "bytes_loop s 0 [] = map (\<lambda>k. Number (hex_pair s k)) [0 ..< length s div 2]"
    using bytes_loop_hex [OF assms, of 0 "[]"] by simp
  have "map (\<lambda>v. ToInt32 v AND 0xff) (map (\<lambda>k. Number (hex_pair s k)) [0 ..< length s div 2])
    = map (\<lambda>k. hex_pair s k mod 256) [0 ..< length s div 2]"
    by (simp only: map_map comp_def ToInt32_hex_pair)
  also have "\<dots> = map (hex_pair s) [0 ..< length s div 2]"
    by (rule map_cong) (simp_all add: hex_pair_byte [OF assms(2)])
  finally show ?thesis
    by (simp only: emitBinary_BytesLiteral loop length_map length_upt diff_zero)
qed

text \<open>
  C7: a bytes node whose text has even length and only hexadecimal digits encodes as the tag
  byte 10, the four bytes of half the text's length, most significant first, and one byte for
  each pair of digits, in order, whose value is that of the pair read as a hexadecimal
  number. The text \<open>0a0b\<close> encodes to 0A 00 00 00 02 0A 0B.
\<close>

theorem bytes_literal_is_length_prefixed:
  "(even (length s) \<longrightarrow> list_all is_hex_digit s \<longrightarrow>
      emitBinary (BytesLiteral s) =
        Inr (0x0A # uint32_be (length s div 2) @ map (hex_pair s) [0 ..< length s div 2]))
   \<and> hex_pair s k = int (16 * hex_value (s ! (2 * k)) + hex_value (s ! (2 * k + 1)))
   \<and> (n < 2 ^ 32 \<longrightarrow> be_value (uint32_be n) = int n)
   \<and> emitBinary (BytesLiteral (str ''0a0b'')) = Inr [0x0A, 0x00, 0x00, 0x00, 0x02, 0x0A, 0x0B]"
proof -
  have example: "emitBinary (BytesLiteral (str ''0a0b'')) = Inr [0x0A, 0x00, 0x00, 0x00, 0x02, 0x0A, 0x0B]"
    by (simp add: emitBinary_BytesLiteral bytes_loop_0a0b uint32_be_small ToInt32_and_255)
  from example emitBinary_BytesLiteral_hex [of s] be_value_uint32_be [of n] hex_pair_def [of s k]
  show ?thesis
    by blast
qed

theorem bytes_literal_is_length_prefixed_witness:
  "even (length (str ''0a0b'')) \<and> list_all is_hex_digit (str ''0a0b'')
   \<and> emitBinary (BytesLiteral (str ''0a0b'')) =
       Inr (0x0A # uint32_be (length (str ''0a0b'') div 2)
              @ map (hex_pair (str ''0a0b'')) [0 ..< length (str ''0a0b'') div 2])
   \<and> (2 :: nat) < 2 ^ 32 \<and> be_value (uint32_be 2) = 2"
proof -
  have digits: "even (length (str ''0a0b''))" "list_all is_hex_digit (str ''0a0b'')"
    by (simp_all add: str_def is_hex_digit_def digit_of_def)
  have small: "(2 :: nat) < 2 ^ 32"
    by simp
  from bytes_literal_is_length_prefixed [of "str ''0a0b''" 0 2] digits small show ?thesis
    by simp
qed

subsection \<open>Annotations\<close>

lemma length_prim_header: "length (prim_header name args annots) = 2"
  by (simp add: prim_header_def)

lemma emitBinary_Prim_annotated:
  assumes "an \<noteq> []" and "primTags name \<noteq> Undefined" and "emit_args args = Inr a"
  shows "emitBinary (Prim name args (Some an)) =
    Inr (prim_header name args (Some an) @ a
         @ uint32_be (length (TextEncoder_encode (join (str '' '') an)))
         @ TextEncoder_encode (join (str '' '') an))"
  using assms by (simp add: emitBinary_Prim annots_block_eq)

lemma join_example: "join (str '' '') [str ''%a'', str ''%b''] = str ''%a %b''"
  by (simp add: str_def)

lemma TextEncoder_encode_example:
  "TextEncoder_encode (str ''%a %b'') = [0x25, 0x61, 0x20, 0x25, 0x62]"
  "TextEncoder_encode [0x20AC] = [0xE2, 0x82, 0xAC]"
  by (simp_all add: str_def is_high_surrogate_def is_low_surrogate_def utf8_of_code_point_def)

text \<open>
  C6: an application with one or more annotations encodes as its tag byte and primitive
  index, then the encodings of its arguments, then the four bytes of the UTF-8 length of
  the annotations joined by single spaces, most significant first, then those UTF-8 bytes.
\<close>

theorem annotations_are_appended:
  "(an \<noteq> [] \<longrightarrow> primTags name \<noteq> Undefined \<longrightarrow> emit_args args = Inr a \<longrightarrow>
      emitBinary (Prim name args (Some an)) =
        Inr (prim_header name args (Some an) @ a
             @ uint32_be (length (TextEncoder_encode (join (str '' '') an)))
             @ TextEncoder_encode (join (str '' '') an)))
   \<and> length (prim_header name args annots) = 2
   \<and> emit_args args =
       (case args of
          None \<Rightarrow> Inr []
        | Some as \<Rightarrow> if length as < 3 then emitEach as else emitBinary (Seq as))
   \<and> (n < 2 ^ 32 \<longrightarrow> be_value (uint32_be n) = int n)
   \<and> join (str '' '') [str ''%a'', str ''%b''] = str ''%a %b''
   \<and> TextEncoder_encode [0x20AC] = [0xE2, 0x82, 0xAC]
   \<and> emitBinary (Prim (str ''Pair'') (Some [IntLiteral (str ''1''), IntLiteral (str ''2'')])
         (Some [str ''%a'', str ''%b'']))
       = Inr [0x08, 0x07, 0x00, 0x01, 0x00, 0x02, 0x00, 0x00, 0x00, 0x05,
              0x25, 0x61, 0x20, 0x25, 0x62]"
proof -
  have example: "emitBinary (Prim (str ''Pair'') (Some [IntLiteral (str ''1''), IntLiteral (str ''2'')])
         (Some [str ''%a'', str ''%b'']))
       = Inr [0x08, 0x07, 0x00, 0x01, 0x00, 0x02, 0x00, 0x00, 0x00, 0x05,
              0x25, 0x61, 0x20, 0x25, 0x62]"
    by (simp add: emitBinary_Prim primTags_Pair emit_args_eq prim_header_def prim_tag_def
        args_length_def js_or_def js_add_def js_mul_def annots_block_eq ToInt32_and_255
        emitEach_Cons emitEach_Nil emitBinary_IntLiteral BigInt_1 BigInt_2 varint_1 varint_2
        join_example TextEncoder_encode_example uint32_be_small del: join.simps)
  from example emitBinary_Prim_annotated [of an name args a] length_prim_header [of name args annots]
    emit_args_eq [of args] be_value_uint32_be [of n] join_example TextEncoder_encode_example(2)
  show ?thesis
    by blast
qed

theorem annotations_are_appended_witness:
  "[str ''%a'', str ''%b''] \<noteq> [] \<and> primTags (str ''Pair'') \<noteq> Undefined
   \<and> emit_args None = Inr []
   \<and> emitBinary (Prim (str ''Pair'') None (Some [str ''%a'', str ''%b''])) =
       Inr (prim_header (str ''Pair'') None (Some [str ''%a'', str ''%b'']) @ []
            @ uint32_be (length (TextEncoder_encode (join (str '' '') [str ''%a'', str ''%b''])))
            @ TextEncoder_encode (join (str '' '') [str ''%a'', str ''%b'']))
   \<and> (5 :: nat) < 2 ^ 32 \<and> be_value (uint32_be 5) = 5"
proof -
  have args: "emit_args None = Inr []"
    by (simp add: emit_args_eq)
  have small: "(5 :: nat) < 2 ^ 32"
    by simp
  from annotations_are_appended [of "[str ''%a'', str ''%b'']" "str ''Pair''" None "[]" None 5]
    args small
  show ?thesis
    by (simp add: primTags_Pair)
qed


subsection \<open>The tag of an application\<close>

lemma prim_tag_compact:
  "prim_tag args annots = Number (compact_tag (arg_count args) (has_annots annots))"
proof (cases args)
  case None
  then show ?thesis
    by (cases annots)
      (simp_all add: prim_tag_def args_length_def js_or_def js_add_def js_mul_def compact_tag_def
        arg_count_def has_annots_def)
next
  case (Some as)
  then show ?thesis
    by (cases annots; cases "as = []")
      (simp_all add: prim_tag_def args_length_def js_or_def js_add_def js_mul_def compact_tag_def
        arg_count_def has_annots_def)
qed

lemma arity_test_true: "truthy (js_or (args_length args) (Boolean ((0 :: int) < 3)))"
  by (simp add: js_or_def)

lemma hd_prim_header:
  "hd (prim_header name args annots) = compact_tag (arg_count args) (has_annots annots) mod 256"
  by (simp add: prim_header_def prim_tag_compact ToInt32_and_255)

lemma hd_emitBinary_Prim:
  assumes "emitBinary (Prim name args annots) = Inr bs"
  shows "hd bs = compact_tag (arg_count args) (has_annots annots) mod 256"
proof -
  from assms obtain a where "bs = prim_header name args annots @ a @ annots_block annots"
    unfolding emitBinary_Prim by (auto split: if_splits sum.splits)
  then have "hd bs = hd (prim_header name args annots)"
    by (simp add: prim_header_def)
  then show ?thesis
    by (simp only: hd_prim_header)
qed

lemma compact_tag_bounds:
  "0 \<le> compact_tag n b"
  "n \<le> 125 \<Longrightarrow> compact_tag n b < 256"
  "4 \<le> n \<Longrightarrow> 11 \<le> compact_tag n b"
  "compact_tag 3 False = 9"
  by (simp_all add: compact_tag_def)

lemma emitBinary_Prim_in_table:
  assumes "name \<in> set primitives" and "emit_args args = Inr a"
  shows "emitBinary (Prim name args annots) =
    Inr (prim_header name args annots @ a @ annots_block annots)"
proof -
  from assms(1) have "primTags name \<noteq> Undefined"
    by (auto elim: primTags_in_table)
  with assms(2) show ?thesis
    by (simp add: emitBinary_Prim)
qed

lemma emitEach_replicate:
  assumes "emitBinary x = Inr b"
  shows "emitEach (replicate n x) = Inr (concat (replicate n b))"
proof (rule emitEach_map)
  show "map emitBinary (replicate n x) = map Inr (replicate n b)"
    by (simp add: assms)
qed

lemma length_concat_replicate: "length (concat (replicate n b)) = n * length b"
  by (induction n) simp_all

lemma Pair_in_table: "str ''Pair'' \<in> set primitives"
proof -
  have "primitives ! 7 \<in> set primitives"
    by (rule nth_mem) (simp add: length_primitives)
  also have "primitives ! 7 = str ''Pair''"
    by (simp add: primitives_def)
  finally show ?thesis .
qed

lemma emitBinary_Pair_of_zeros:
  assumes "3 \<le> n"
  shows "emitBinary (Prim (str ''Pair'') (Some (replicate n (IntLiteral (str ''0'')))) None) =
    Inr ([(3 + 2 * int n) mod 256, 0x07, 0x02] @ uint32_be (2 * n) @ concat (replicate n [0x00, 0x00]))"
proof -
  have zero: "emitBinary (IntLiteral (str ''0'')) = Inr [0x00, 0x00]"
    by (simp add: emitBinary_IntLiteral BigInt_0 varint_0)
  have len: "length (concat (replicate n [0x00, 0x00 :: int])) = 2 * n"
    by (simp add: length_concat_replicate)
  have "emit_args (Some (replicate n (IntLiteral (str ''0'')))) =
    emitBinary (Seq (replicate n (IntLiteral (str ''0''))))"
    using assms by (simp add: emit_args_eq)
  also have "\<dots> = Inr (0x02 # uint32_be (2 * n) @ concat (replicate n [0x00, 0x00]))"
    by (simp only: emitBinary_Seq emitEach_replicate [OF zero] sum.case len)
  finally have args: "emit_args (Some (replicate n (IntLiteral (str ''0'')))) =
    Inr (0x02 # uint32_be (2 * n) @ concat (replicate n [0x00, 0x00]))" .
  have header: "prim_header (str ''Pair'') (Some (replicate n (IntLiteral (str ''0'')))) None =
    [(3 + 2 * int n) mod 256, 0x07]"
    by (simp add: prim_header_def prim_tag_compact compact_tag_def arg_count_def has_annots_def
        primTags_Pair ToInt32_and_255)
  show ?thesis
    unfolding emitBinary_Prim_in_table [OF Pair_in_table args] header
    by (simp add: annots_block_def)
qed


text \<open>
  C1 as stated fails where the formula reaches 256: \<open>Pair\<close> applied to 127 arguments has the
  tag 257 by the formula, and the tag byte written is 1.
\<close>

theorem tag_byte_of_127_arguments:
  "str ''Pair'' \<in> set primitives
   \<and> emitBinary (Prim (str ''Pair'') (Some (replicate 127 (IntLiteral (str ''0'')))) None) =
       Inr ([0x01, 0x07, 0x02, 0x00, 0x00, 0x00, 0xFE] @ concat (replicate 127 [0x00, 0x00]))
   \<and> compact_tag (arg_count (Some (replicate 127 (IntLiteral (str ''0''))))) (has_annots None) = 257
   \<and> hd ([0x01, 0x07, 0x02, 0x00, 0x00, 0x00, 0xFE] @ concat (replicate 127 [0x00, 0x00])) < (11 :: int)"
proof -
  have "emitBinary (Prim (str ''Pair'') (Some (replicate 127 (IntLiteral (str ''0'')))) None) =
       Inr ([0x01, 0x07, 0x02, 0x00, 0x00, 0x00, 0xFE] @ concat (replicate 127 [0x00, 0x00]))"
    using emitBinary_Pair_of_zeros [of 127] by (simp add: uint32_be_small)
  then show ?thesis
    by (simp add: Pair_in_table compact_tag_def arg_count_def has_annots_def)
qed

text \<open>
  C1, amended: for every application node the tag is computed by the compact-form formula
  3 + 2 * (argument count) + (1 if the annotation list is not empty), whatever the argument
  count, because the arity test is always true and the generic branch is never taken. The
  tag byte written is that value modulo 256, hence the value itself while it is below 256,
  as for every count up to 125: 9 for exactly 3 arguments without annotations, and 11 or
  more from 4 arguments on. With a name of the table and arguments that encode, the node
  encodes, to that tag byte, the index byte, the arguments and the annotation block.
\<close>

theorem application_tag_is_compact_formula:
  "prim_tag args annots = Number (compact_tag (arg_count args) (has_annots annots))
   \<and> truthy (js_or (args_length args) (Boolean ((0 :: int) < 3)))
   \<and> (emitBinary (Prim name args annots) = Inr bs \<longrightarrow>
        hd bs = compact_tag (arg_count args) (has_annots annots) mod 256)
   \<and> (emitBinary (Prim name args annots) = Inr bs \<longrightarrow>
        compact_tag (arg_count args) (has_annots annots) < 256 \<longrightarrow>
        hd bs = compact_tag (arg_count args) (has_annots annots))
   \<and> (arg_count args \<le> 125 \<longrightarrow> compact_tag (arg_count args) (has_annots annots) < 256)
   \<and> compact_tag 3 False = 9
   \<and> (4 \<le> arg_count args \<longrightarrow> 11 \<le> compact_tag (arg_count args) (has_annots annots))
   \<and> (name \<in> set primitives \<longrightarrow> emit_args args = Inr a \<longrightarrow>
        emitBinary (Prim name args annots) =
          Inr (prim_header name args annots @ a @ annots_block annots))"
proof -
  let ?tag = "compact_tag (arg_count args) (has_annots annots)"
  have byte: "hd bs = ?tag mod 256" if "emitBinary (Prim name args annots) = Inr bs"
    using that by (rule hd_emitBinary_Prim)
  have small: "hd bs = ?tag" if "emitBinary (Prim name args annots) = Inr bs" and "?tag < 256"
    using byte [OF that(1)] that(2) compact_tag_bounds(1) [of "arg_count args" "has_annots annots"]
    by simp
  from byte small prim_tag_compact [of args annots] arity_test_true [of args]
    compact_tag_bounds(2,3) [of "arg_count args" "has_annots annots"] compact_tag_bounds(4)
    emitBinary_Prim_in_table [of name args a annots]
  show ?thesis
    by blast
qed

theorem application_tag_is_compact_formula_witness:
  "str ''Pair'' \<in> set primitives
   \<and> emit_args (Some (replicate 4 (IntLiteral (str ''0'')))) =
       Inr ([0x02, 0x00, 0x00, 0x00, 0x08] @ concat (replicate 4 [0x00, 0x00]))
   \<and> emitBinary (Prim (str ''Pair'') (Some (replicate 4 (IntLiteral (str ''0'')))) None) =
       Inr ([0x0B, 0x07, 0x02, 0x00, 0x00, 0x00, 0x08] @ concat (replicate 4 [0x00, 0x00]))
   \<and> arg_count (Some (replicate 4 (IntLiteral (str ''0'')))) \<le> 125
   \<and> 4 \<le> arg_count (Some (replicate 4 (IntLiteral (str ''0''))))
   \<and> compact_tag (arg_count (Some (replicate 4 (IntLiteral (str ''0''))))) (has_annots None) < 256
   \<and> hd ([0x0B, 0x07, 0x02, 0x00, 0x00, 0x00, 0x08] @ concat (replicate 4 [0x00, 0x00]))
       = compact_tag (arg_count (Some (replicate 4 (IntLiteral (str ''0''))))) (has_annots None)
   \<and> 11 \<le> compact_tag (arg_count (Some (replicate 4 (IntLiteral (str ''0''))))) (has_annots None)"
proof -
  let ?args = "Some (replicate 4 (IntLiteral (str ''0'')))"
  let ?bs = "[0x0B, 0x07, 0x02, 0x00, 0x00, 0x00, 0x08] @ concat (replicate 4 [0x00, 0x00 :: int])"
  let ?a = "[0x02, 0x00, 0x00, 0x00, 0x08] @ concat (replicate 4 [0x00, 0x00 :: int])"
  have emit: "emitBinary (Prim (str ''Pair'') ?args None) = Inr ?bs"
    using emitBinary_Pair_of_zeros [of 4] by (simp add: uint32_be_small)
  have zero: "emitBinary (IntLiteral (str ''0'')) = Inr [0x00, 0x00]"
    by (simp add: emitBinary_IntLiteral BigInt_0 varint_0)
  have args: "emit_args ?args = Inr ?a"
    by (simp add: emit_args_eq emitBinary_Seq emitEach_Cons emitEach_Nil zero uint32_be_small
        numeral_eq_Suc)
  have count: "arg_count ?args \<le> 125" "4 \<le> arg_count ?args"
    by (simp_all add: arg_count_def)
  from application_tag_is_compact_formula [of ?args None "str ''Pair''" ?bs ?a]
    emit args count Pair_in_table
  show ?thesis
    by blast
qed

end
